theory Spec2Isabelle
  imports Complex_Main "HOL-Library.Sublist"
begin

section \<open>Strings and characters\<close>

text \<open>
  A JavaScript string is modelled as a \<^typ>\<open>string\<close>: the list of its code units, each
  below 256 (the Latin-1 range, which contains the ASCII letters and punctuation the
  program looks at).
\<close>

definition LF :: char where "LF = CHR 0x0A"
definition CR :: char where "CR = CHR 0x0D"

text \<open>The members of the regular-expression class \<open>\s\<close> below 256.\<close>

definition white_space :: "char list" where
  "white_space = [CHR 0x09, CHR 0x0A, CHR 0x0B, CHR 0x0C, CHR 0x0D, CHR 0x20, CHR 0xA0]"

text \<open>
  \<open>String.prototype.toLowerCase\<close>, one code unit at a time: below 256 the letters with
  a lower-case form are \<open>A\<close> to \<open>Z\<close> and the code units 192 to 222 but 215 (the
  multiplication sign), and the lower-case form is 32 higher.
\<close>

definition lower_char :: "char \<Rightarrow> char" where
  "lower_char c = (let n = (of_char c :: nat) in
     if (65 \<le> n \<and> n \<le> 90) \<or> (192 \<le> n \<and> n \<le> 222 \<and> n \<noteq> 215)
     then char_of (n + 32) else c)"

definition toLowerCase :: "string \<Rightarrow> string" where
  "toLowerCase s = map lower_char s"

section \<open>Regular expressions\<close>

text \<open>
  The fragment of JavaScript regular expressions that the program uses: character
  classes, literal text, the anchors \<open>^\<close> and \<open>$\<close> (no \<open>m\<close> flag anywhere, so they
  anchor at the two ends of the input), sequence, alternation, greedy \<open>?\<close>, greedy
  repetition of a class (\<open>*\<close>, \<open>+\<close>, \<open>{n,}\<close>), and the one back reference of the source,
  \<open>([^aeiouy])\1\<close>, a character of a class followed by itself.
\<close>

datatype cls = Dot | Of string | NotOf string | Space

fun in_cls :: "cls \<Rightarrow> char \<Rightarrow> bool" where
  "in_cls Dot c = (c \<noteq> LF \<and> c \<noteq> CR)"
| "in_cls (Of cs) c = (c \<in> set cs)"
| "in_cls (NotOf cs) c = (c \<notin> set cs)"
| "in_cls Space c = (c \<in> set white_space)"

datatype rx =
    Chr cls
  | Str string
  | Bol
  | Eol
  | Seq rx rx
  | Alt rx rx
  | Opt rx
  | Many nat cls
  | Dbl cls

fun cat :: "rx list \<Rightarrow> rx" where
  "cat [] = Str []"
| "cat [r] = r"
| "cat (r # rs) = Seq r (cat rs)"

text \<open>
  Backtracking matcher in continuation style. The flag says whether the current position
  is the start of the input; the string is what is left of the input. The result is what
  the first successful alternative leaves of the input. Greedy repetition tries
  the longer match first and gives characters back when the rest of the pattern fails.
\<close>

type_synonym cont = "bool \<Rightarrow> string \<Rightarrow> string option"

fun many :: "cls \<Rightarrow> nat \<Rightarrow> cont \<Rightarrow> cont" where
  "many c n k b [] = (if n = 0 then k b [] else None)"
| "many c n k b (x # xs) =
     (if in_cls c x then
        (case many c (n - 1) k False xs of
           Some e \<Rightarrow> Some e
         | None \<Rightarrow> if n = 0 then k b (x # xs) else None)
      else if n = 0 then k b (x # xs) else None)"

fun rxm :: "rx \<Rightarrow> cont \<Rightarrow> cont" where
  "rxm (Chr c) k b s = (case s of [] \<Rightarrow> None | x # xs \<Rightarrow> if in_cls c x then k False xs else None)"
| "rxm (Str p) k b s =
     (if p = [] then k b s
      else if prefix p s then k False (drop (length p) s) else None)"
| "rxm Bol k b s = (if b then k b s else None)"
| "rxm Eol k b s = (if s = [] then k b s else None)"
| "rxm (Seq r1 r2) k b s = rxm r1 (\<lambda>b' s'. rxm r2 k b' s') b s"
| "rxm (Alt r1 r2) k b s = (case rxm r1 k b s of Some e \<Rightarrow> Some e | None \<Rightarrow> rxm r2 k b s)"
| "rxm (Opt r) k b s = (case rxm r k b s of Some e \<Rightarrow> Some e | None \<Rightarrow> k b s)"
| "rxm (Many n c) k b s = many c n k b s"
| "rxm (Dbl c) k b s =
     (case s of
        x # y # zs \<Rightarrow> if in_cls c x \<and> y = x then k False zs else None
      | _ \<Rightarrow> None)"

definition accept :: cont where
  "accept b s = Some s"

text \<open>A match that starts exactly at the current position; the result is the rest.\<close>

definition match_here :: "rx \<Rightarrow> bool \<Rightarrow> string \<Rightarrow> string option" where
  "match_here r b s = rxm r accept b s"

text \<open>
  \<open>RegExp.prototype.test\<close> on an expression whose \<open>lastIndex\<close> is 0: is there a match
  anywhere? Every expression of the program is a literal inside the function that uses
  it, evaluated anew at each call (ECMAScript 5 and later), and tested once per call.
\<close>

fun search :: "rx \<Rightarrow> bool \<Rightarrow> string \<Rightarrow> bool" where
  "search r b [] = (match_here r b [] \<noteq> None)"
| "search r b (c # cs) = (match_here r b (c # cs) \<noteq> None \<or> search r False cs)"

definition test :: "rx \<Rightarrow> string \<Rightarrow> bool" where
  "test r s = search r True s"

text \<open>
  \<open>String.prototype.replace\<close> with a global expression: every match, leftmost first,
  none overlapping. After an empty match the scan moves one character on.
\<close>

fun replace_from :: "rx \<Rightarrow> string \<Rightarrow> bool \<Rightarrow> string \<Rightarrow> string" where
  "replace_from r rep b s =
     (case match_here r b s of
        Some rest \<Rightarrow>
          if length rest < length s then rep @ replace_from r rep False rest
          else (case s of [] \<Rightarrow> rep | c # cs \<Rightarrow> rep @ c # replace_from r rep False cs)
      | None \<Rightarrow> (case s of [] \<Rightarrow> [] | c # cs \<Rightarrow> c # replace_from r rep False cs))"

definition replace_all :: "rx \<Rightarrow> string \<Rightarrow> string \<Rightarrow> string" where
  "replace_all r rep s = replace_from r rep True s"

text \<open>\<open>replace\<close> with an expression that has no \<open>g\<close> flag: the first match only.\<close>

fun replace_first_from :: "rx \<Rightarrow> string \<Rightarrow> bool \<Rightarrow> string \<Rightarrow> string" where
  "replace_first_from r rep b [] = (case match_here r b [] of Some rest \<Rightarrow> rep | None \<Rightarrow> [])"
| "replace_first_from r rep b (c # cs) =
     (case match_here r b (c # cs) of
        Some rest \<Rightarrow> rep @ rest
      | None \<Rightarrow> c # replace_first_from r rep False cs)"

definition replace_first :: "rx \<Rightarrow> string \<Rightarrow> string \<Rightarrow> string" where
  "replace_first r rep s = replace_first_from r rep True s"

text \<open>\<open>replace\<close> with a string pattern: the first occurrence only.\<close>

fun replace_str :: "string \<Rightarrow> string \<Rightarrow> string \<Rightarrow> string" where
  "replace_str pat rep [] = (if pat = [] then rep else [])"
| "replace_str pat rep (c # cs) =
     (if prefix pat (c # cs) then rep @ drop (length pat) (c # cs)
      else c # replace_str pat rep cs)"

text \<open>\<open>match\<close> with a global expression: the matched substrings, or null when there is none.\<close>

fun matches_from :: "rx \<Rightarrow> bool \<Rightarrow> string \<Rightarrow> string list" where
  "matches_from r b s =
     (case match_here r b s of
        Some rest \<Rightarrow>
          if length rest < length s
          then take (length s - length rest) s # matches_from r False rest
          else (case s of [] \<Rightarrow> [[]] | c # cs \<Rightarrow> [] # matches_from r False cs)
      | None \<Rightarrow> (case s of [] \<Rightarrow> [] | c # cs \<Rightarrow> matches_from r False cs))"

definition match_all :: "rx \<Rightarrow> string \<Rightarrow> string list option" where
  "match_all r s = (let ms = matches_from r True s in if ms = [] then None else Some ms)"

text \<open>
  \<open>split\<close> with an expression: the scan tries a match at every position \<open>q\<close> short of the
  end; a match that ends where the current piece began moves on by one character, any
  other match closes the piece. The accumulator is the piece read so far.
\<close>

fun split_from :: "rx \<Rightarrow> bool \<Rightarrow> string \<Rightarrow> string \<Rightarrow> string list" where
  "split_from r b acc [] = [acc]"
| "split_from r b acc (c # cs) =
     (case match_here r b (c # cs) of
        None \<Rightarrow> split_from r False (acc @ [c]) cs
      | Some rest \<Rightarrow>
          if length rest < length (c # cs) then acc # split_from r False [] rest
          else if acc = [] then split_from r False [c] cs
          else acc # split_from r False [c] cs)"

definition split_rx :: "rx \<Rightarrow> string \<Rightarrow> string list" where
  "split_rx r s =
     (if s = [] then (if match_here r True [] \<noteq> None then [] else [[]])
      else split_from r True [] s)"

text \<open>\<open>split\<close> with a one-character string separator.\<close>

fun split_on :: "char \<Rightarrow> string \<Rightarrow> string list" where
  "split_on d [] = [[]]"
| "split_on d (c # cs) =
     (if c = d then [] # split_on d cs
      else (case split_on d cs of [] \<Rightarrow> [[c]] | w # ws \<Rightarrow> (c # w) # ws))"

section \<open>The syllable estimator\<close>

text \<open>
  The source declares none of its variables with \<open>var\<close>: outside strict mode they are
  properties of the global object, shared by all the functions. The model gives every
  function its own variables, and writes out the two places where a function reads such
  a variable after a call that assigns it (see \<open>average_syllables_per_word\<close> and
  \<open>percentage_words_with_three_syllables\<close>).

  What \<open>syllable_count\<close> can return: a number, or one of the two values that the lookup
  \<open>arrProblemWords[strWord]\<close> inherits from \<open>Object.prototype\<close> under an all-lowercase
  key (\<open>constructor\<close> and \<open>__proto__\<close>).
\<close>

datatype jsval = Num int | Undefined | ObjectFunction | ObjectPrototype

definition arrProblemWords :: "(string \<times> int) list" where
  "arrProblemWords = [(''simile'', 3), (''forever'', 3), (''shoreline'', 2)]"

definition problem_word :: "string \<Rightarrow> jsval" where
  "problem_word w =
     (case map_of arrProblemWords w of
        Some n \<Rightarrow> Num n
      | None \<Rightarrow>
          if w = ''constructor'' then ObjectFunction
          else if w = ''__proto__'' then ObjectPrototype
          else Undefined)"

fun truthy :: "jsval \<Rightarrow> bool" where
  "truthy (Num n) = (n \<noteq> 0)"
| "truthy Undefined = False"
| "truthy ObjectFunction = True"
| "truthy ObjectPrototype = True"

text \<open>
  The three lists of expressions, in the order of the source. \<open>Str\<close> is literal text,
  \<open>Chr (Of cs)\<close> the class \<open>[cs]\<close>, \<open>Chr (NotOf cs)\<close> the class \<open>[^cs]\<close>, \<open>Chr Dot\<close> the
  dot, \<open>Opt\<close> the question mark, \<open>Many n\<close> the quantifier \<open>{n,}\<close>, \<open>Bol\<close> and \<open>Eol\<close> the
  anchors \<open>^\<close> and \<open>$\<close>.
\<close>

definition arrSubSyllables :: "rx list" where
  "arrSubSyllables =
    [ Str ''cial'',
      Str ''tia'',
      Str ''cius'',
      Str ''cious'',
      Str ''giu'',
      Str ''ion'',
      Str ''iou'',
      cat [Str ''sia'', Eol],
      cat [Many 2 (NotOf ''aeiuoyt''), Str ''ed'', Eol],
      cat [Chr Dot, Str ''ely'', Eol],
      cat [Chr (Of ''cg''), Opt (Str ''h''), Str ''e'', Opt (Chr (Of ''rsd'')), Eol],
      cat [Str ''rve'', Opt (Str ''d''), Eol],
      cat [Chr (Of ''aeiouy''), Chr (Of ''dt''), Str ''e'', Opt (Str ''s''), Eol],
      cat [Chr (Of ''aeiouy''), Chr (NotOf ''aeiouydt''), Str ''e'', Opt (Chr (Of ''rsd'')), Eol],
      cat [Bol, Chr (Of ''dr''), Str ''e'', Chr (Of ''aeiou''), Many 1 (NotOf ''aeiou''), Eol],
      cat [Chr (Of ''aeiouy''), Str ''rse'', Eol] ]"

definition arrAddSyllables :: "rx list" where
  "arrAddSyllables =
    [ Str ''ia'',
      Str ''riet'',
      Str ''dien'',
      Str ''iu'',
      Str ''io'',
      Str ''ii'',
      cat [Chr (Of ''aeiouym''), Str ''bl'', Eol],
      cat [Chr (Of ''aeiou''), Chr (Of ''aeiou''), Chr (Of ''aeiou'')],
      cat [Bol, Str ''mc''],
      cat [Str ''ism'', Eol],
      cat [Dbl (NotOf ''aeiouy''), Str ''l'', Eol],
      cat [Chr (NotOf ''l''), Str ''lien''],
      cat [Bol, Str ''coa'', Chr (Of ''dglx''), Chr Dot],
      cat [Chr (NotOf ''gq''), Str ''ua'', Chr (NotOf ''auieo'')],
      cat [Str ''dnt'', Eol],
      cat [Str ''uity'', Eol],
      cat [Str ''ie'', Alt (Str ''r'') (Str ''st''), Eol] ]"

text \<open>Each affix pattern with its \<open>g\<close> flag; only \<open>/^un/\<close> has none.\<close>

definition arrPrefixSuffix :: "(rx \<times> bool) list" where
  "arrPrefixSuffix =
    [ (cat [Bol, Str ''un''], False),
      (cat [Bol, Str ''fore''], True),
      (cat [Str ''ly'', Eol], True),
      (cat [Str ''less'', Eol], True),
      (cat [Str ''ful'', Eol], True),
      (cat [Str ''er'', Opt (Str ''s''), Eol], True),
      (cat [Str ''ing'', Opt (Str ''s''), Eol], True) ]"

definition strip_affix :: "rx \<times> bool \<Rightarrow> string \<times> int \<Rightarrow> string \<times> int" where
  "strip_affix p st =
     (case (p, st) of ((r, g), (strWord, intPrefixSuffixCount)) \<Rightarrow>
        if test r strWord
        then ((if g then replace_all r [] strWord else replace_first r [] strWord),
              intPrefixSuffixCount + 1)
        else (strWord, intPrefixSuffixCount))"

definition lower_letters :: string where
  "lower_letters = ''abcdefghijklmnopqrstuvwxyz''"

definition syllable_count :: "string \<Rightarrow> jsval" where
  "syllable_count strWord0 =
     (let strWord = toLowerCase strWord0 in
      if truthy (problem_word strWord) then problem_word strWord
      else
        let (strWord, intPrefixSuffixCount) = fold strip_affix arrPrefixSuffix (strWord, 0);
            strWord = replace_all (Chr (NotOf lower_letters)) [] strWord;
            arrWordParts = split_rx (Many 1 (NotOf ''aeiouy'')) strWord;
            intWordPartCount = int (length (filter (\<lambda>p. p \<noteq> []) arrWordParts));
            intSyllableCount = intWordPartCount + intPrefixSuffixCount;
            intSyllableCount =
              fold (\<lambda>r n. if test r strWord then n - 1 else n) arrSubSyllables intSyllableCount;
            intSyllableCount =
              fold (\<lambda>r n. if test r strWord then n + 1 else n) arrAddSyllables intSyllableCount
        in Num (if intSyllableCount = 0 then 1 else intSyllableCount))"

section \<open>Numbers and errors\<close>

text \<open>
  A JavaScript number, with the doubles idealised as reals: a finite value, or one of the
  values that are not finite (NaN and the two infinities), which the arithmetic of the
  program never turns back into a finite one: every divisor in the program is a count.
\<close>

datatype number = Fin real | NotFinite

instantiation number :: "{plus, minus, times}"
begin

fun plus_number :: "number \<Rightarrow> number \<Rightarrow> number" where
  "plus_number (Fin x) (Fin y) = Fin (x + y)"
| "plus_number _ _ = NotFinite"

fun minus_number :: "number \<Rightarrow> number \<Rightarrow> number" where
  "minus_number (Fin x) (Fin y) = Fin (x - y)"
| "minus_number _ _ = NotFinite"

fun times_number :: "number \<Rightarrow> number \<Rightarrow> number" where
  "times_number (Fin x) (Fin y) = Fin (x * y)"
| "times_number _ _ = NotFinite"

instance ..

end

definition num :: "nat \<Rightarrow> number" where
  "num n = Fin (real n)"

text \<open>Division by a count; by zero it gives NaN or an infinity.\<close>

fun over :: "number \<Rightarrow> nat \<Rightarrow> number" where
  "over (Fin x) n = (if n = 0 then NotFinite else Fin (x / real n))"
| "over NotFinite n = NotFinite"

text \<open>\<open>Math.sqrt\<close>.\<close>

fun math_sqrt :: "number \<Rightarrow> number" where
  "math_sqrt (Fin x) = (if x < 0 then NotFinite else Fin (sqrt x))"
| "math_sqrt NotFinite = NotFinite"

text \<open>
  The only exception the program can raise: reading \<open>length\<close> of the null that \<open>match\<close>
  returns when nothing matches.
\<close>

datatype error = TypeError

definition bind_error :: "error + 'a \<Rightarrow> ('a \<Rightarrow> error + 'b) \<Rightarrow> error + 'b" where
  "bind_error m f = (case m of Inl e \<Rightarrow> Inl e | Inr x \<Rightarrow> f x)"

section \<open>The text normalizer\<close>

definition arrFullStopTags :: "string list" where
  "arrFullStopTags = [''li'', ''p'', ''h1'', ''h2'', ''h3'', ''h4'', ''h5'', ''h6'', ''dd'']"

text \<open>The expression \<open>/(<([^>]+)>)/ig\<close>; its groups are not used.\<close>

definition objTags :: rx where
  "objTags = cat [Str ''<'', Many 1 (NotOf ''>''), Str ''>'']"

text \<open>The expression \<open>/(?:(?:^|\n)\s+|\s+(?:$|\n))/g\<close>, used twice.\<close>

definition trim_rx :: rx where
  "trim_rx = Alt (Seq (Alt Bol (Str [LF])) (Many 1 Space))
                 (Seq (Many 1 Space) (Alt Eol (Str [LF])))"

text \<open>The expression \<open>/[ ]*(\n|\r\n|\r)[ ]*/g\<close>.\<close>

definition newline_rx :: rx where
  "newline_rx = cat [Many 0 (Of '' ''),
                     Alt (Str [LF]) (Alt (Str [CR, LF]) (Str [CR])),
                     Many 0 (Of '' '')]"

text \<open>The expressions \<open>/([\.])[\. ]+/g\<close> and \<open>/[ ]*([\.])/g\<close>.\<close>

definition duplicate_rx :: rx where
  "duplicate_rx = cat [Chr (Of ''.''), Many 1 (Of ''. '')]"

definition pad_rx :: rx where
  "pad_rx = cat [Many 0 (Of '' ''), Chr (Of ''.'')]"

text \<open>
  The closing tags are replaced by \<open>replace\<close> with a string pattern, one call for each tag
  name; the other steps are \<open>replace\<close> with a global expression.
\<close>

definition clean_text :: "string \<Rightarrow> string" where
  "clean_text strText0 =
     (let strText = fold (\<lambda>tag s. replace_str (''</'' @ tag @ ''>'') ''.'' s) arrFullStopTags strText0;
          strText = replace_all objTags [] strText;
          strText = replace_all (Chr (Of '',:;()-'')) '' '' strText;
          strText = replace_all (Chr (Of ''.!?'')) ''.'' strText;
          strText = replace_all (Many 1 Space) '' '' (replace_all trim_rx [] strText) @ ''.'';
          strText = replace_all newline_rx '' '' strText;
          strText = replace_all duplicate_rx ''.'' strText;
          strText = replace_all (Many 1 Space) '' ''
                      (replace_all trim_rx []
                         (replace_all pad_rx ''. '' strText));
          strText = replace_all (Many 1 (Of '' '')) '' '' strText;
          strText = toLowerCase strText
      in strText)"

section \<open>The lexical counters\<close>

definition text_length :: "string \<Rightarrow> nat" where
  "text_length strText = length strText"

definition letters :: string where
  "letters = ''ABCDEFGHIJKLMNOPQRSTUVWXYZabcdefghijklmnopqrstuvwxyz''"

definition letter_count :: "string \<Rightarrow> nat" where
  "letter_count strText0 =
     (let strText = clean_text strText0;
          strText = replace_all (Many 1 (NotOf letters)) [] strText
      in length strText)"

definition sentence_count :: "string \<Rightarrow> error + nat" where
  "sentence_count strText0 =
     (let strText = clean_text strText0 in
      case match_all (Chr (Of ''.!?'')) strText of
        None \<Rightarrow> Inl TypeError
      | Some intSentences \<Rightarrow> Inr (length intSentences))"

definition word_count :: "string \<Rightarrow> nat" where
  "word_count strText0 =
     (let strText = clean_text strText0;
          intWords = 1 + text_length (replace_all (Chr (NotOf '' '')) [] strText)
      in intWords)"

definition average_words_per_sentence :: "string \<Rightarrow> error + number" where
  "average_words_per_sentence strText0 =
     (let strText = clean_text strText0 in
      bind_error (sentence_count strText) (\<lambda>intSentenceCount.
        let intWordCount = word_count strText
        in Inr (over (num intWordCount) intSentenceCount)))"

text \<open>
  \<open>intSyllableCount += syllable_count(word)\<close>. The call assigns the same global
  \<open>intSyllableCount\<close>, but the left operand is read before the call and the sum is stored
  after it, so the running sum is not lost. Adding a value that is not a number makes
  the sum NaN or a string that is not the text of a number; the sum is only used as the
  dividend of the final division, which then gives NaN.
\<close>

fun add_count :: "number \<Rightarrow> jsval \<Rightarrow> number" where
  "add_count (Fin x) (Num n) = Fin (x + of_int n)"
| "add_count _ _ = NotFinite"

definition average_syllables_per_word :: "string \<Rightarrow> number" where
  "average_syllables_per_word strText0 =
     (let strText = clean_text strText0;
          intSyllableCount = Fin 0;
          intWordCount = word_count strText;
          arrWords = split_on CHR '' '' strText;
          intSyllableCount = fold (\<lambda>w n. add_count n (syllable_count w)) arrWords intSyllableCount
      in over intSyllableCount intWordCount)"

text \<open>\<open>syllable_count(word) > 2\<close>: a value that is not a number compares as NaN.\<close>

fun greater_than_two :: "jsval \<Rightarrow> bool" where
  "greater_than_two (Num n) = (n > 2)"
| "greater_than_two _ = False"

text \<open>
  \<open>strFirstLetter !== strFirstLetter.toUpperCase()\<close> for the string of at most one
  character that \<open>substring(0, 1)\<close> returns.
\<close>

definition differs_from_upper :: "string \<Rightarrow> bool" where
  "differs_from_upper strFirstLetter =
     (case strFirstLetter of
        [] \<Rightarrow> False
      | c # _ \<Rightarrow> (let n = (of_char c :: nat) in
          (97 \<le> n \<and> n \<le> 122) \<or> n = 181 \<or> (223 \<le> n \<and> n \<noteq> 247)))"

definition words_with_three_syllables :: "string \<Rightarrow> bool \<Rightarrow> nat" where
  "words_with_three_syllables strText0 blnCountProperNouns0 =
     (let blnCountProperNouns = True;
          strText = clean_text strText0;
          intLongWordCount = 0;
          intWordCount = word_count strText;
          arrWords = split_on CHR '' '' strText
      in fold (\<lambda>w intLongWordCount.
           if greater_than_two (syllable_count w) then
             (if blnCountProperNouns then intLongWordCount + 1
              else (let strFirstLetter = take 1 w in
                    if differs_from_upper strFirstLetter then intLongWordCount + 1
                    else intLongWordCount))
           else intLongWordCount) arrWords intLongWordCount)"

text \<open>
  The call of \<open>words_with_three_syllables\<close> assigns the global \<open>intWordCount\<close> again, with
  the word count of the text it has cleaned once more; that is the value the division
  reads.
\<close>

definition percentage_words_with_three_syllables :: "string \<Rightarrow> bool \<Rightarrow> number" where
  "percentage_words_with_three_syllables strText0 blnCountProperNouns0 =
     (let blnCountProperNouns = True;
          strText = clean_text strText0;
          intWordCount = word_count strText;
          intLongWordCount = words_with_three_syllables strText blnCountProperNouns;
          intWordCount = word_count (clean_text strText);
          intPercentage = over (num intLongWordCount) intWordCount * Fin 100
      in intPercentage)"

section \<open>The readability scores\<close>

definition flesch_kincaid_reading_ease :: "string \<Rightarrow> error + number" where
  "flesch_kincaid_reading_ease strText0 =
     (let strText = clean_text strText0 in
      bind_error (average_words_per_sentence strText) (\<lambda>awps.
        Inr (Fin 206.835 - (Fin 1.015 * awps) - (Fin 84.6 * average_syllables_per_word strText))))"

definition flesch_kincaid_grade_level :: "string \<Rightarrow> error + number" where
  "flesch_kincaid_grade_level strText0 =
     (let strText = clean_text strText0 in
      bind_error (average_words_per_sentence strText) (\<lambda>awps.
        Inr ((Fin 0.39 * awps) + (Fin 11.8 * average_syllables_per_word strText) - Fin 15.59)))"

definition gunning_fog_score :: "string \<Rightarrow> error + number" where
  "gunning_fog_score strText0 =
     (let strText = clean_text strText0 in
      bind_error (average_words_per_sentence strText) (\<lambda>awps.
        Inr ((awps + percentage_words_with_three_syllables strText False) * Fin 0.4)))"

definition coleman_liau_index :: "string \<Rightarrow> error + number" where
  "coleman_liau_index strText0 =
     (let strText = clean_text strText0 in
      bind_error (sentence_count strText) (\<lambda>sc.
        Inr ((Fin 5.89 * over (num (letter_count strText)) (word_count strText))
             - (Fin 0.3 * over (num sc) (word_count strText)) - Fin 15.8)))"

text \<open>The call passes no second argument: the flag is undefined, which is falsy.\<close>

definition smog_index :: "string \<Rightarrow> error + number" where
  "smog_index strText0 =
     (let strText = clean_text strText0 in
      bind_error (sentence_count strText) (\<lambda>sc.
        Inr (Fin 1.043 * math_sqrt ((num (words_with_three_syllables strText False) * over (Fin 30) sc)
                                     + Fin 3.1291))))"

definition automated_readability_index :: "string \<Rightarrow> error + number" where
  "automated_readability_index strText0 =
     (let strText = clean_text strText0 in
      bind_error (sentence_count strText) (\<lambda>sc.
        Inr ((Fin 4.71 * over (num (letter_count strText)) (word_count strText))
             + (Fin 0.5 * over (num (word_count strText)) sc) - Fin 21.43)))"

definition average_grade_level :: "string \<Rightarrow> error + number" where
  "average_grade_level strText =
     bind_error (flesch_kincaid_grade_level strText) (\<lambda>fk.
     bind_error (gunning_fog_score strText) (\<lambda>gf.
     bind_error (coleman_liau_index strText) (\<lambda>cl.
     bind_error (smog_index strText) (\<lambda>sm.
     bind_error (automated_readability_index strText) (\<lambda>ari.
       Inr (over (fk + gf + cl + sm + ari) 5))))))"

section \<open>The aggregate result\<close>

text \<open>
  The object that \<open>all\<close> returns, with its nesting: the statistics are a field of the
  text. The function is named \<open>all_statistics\<close> here. The fields are evaluated in the
  order of the source, so the first exception raised is the one that escapes.
\<close>

record statistics =
  stat_letter_count :: nat
  stat_word_count :: nat
  stat_sentence_count :: nat
  stat_average_syllables_per_word :: number
  stat_average_words_per_sentence :: number

record text_info =
  original :: string
  cleaned :: string
  text_statistics :: statistics

record result =
  res_text :: text_info
  res_flesch_kincaid_reading_ease :: number
  res_flesch_kincaid_grade_level :: number
  res_gunning_fog_score :: number
  res_coleman_liau_index :: number
  res_smog_index :: number
  res_automated_readability_index :: number
  res_average_grade_level :: number

definition all_statistics :: "string \<Rightarrow> error + result" where
  "all_statistics strText =
     bind_error (sentence_count strText) (\<lambda>sc.
     bind_error (average_words_per_sentence strText) (\<lambda>awps.
     bind_error (flesch_kincaid_reading_ease strText) (\<lambda>re.
     bind_error (flesch_kincaid_grade_level strText) (\<lambda>fk.
     bind_error (gunning_fog_score strText) (\<lambda>gf.
     bind_error (coleman_liau_index strText) (\<lambda>cl.
     bind_error (smog_index strText) (\<lambda>sm.
     bind_error (automated_readability_index strText) (\<lambda>ari.
     bind_error (average_grade_level strText) (\<lambda>avg.
       Inr \<lparr> res_text = \<lparr> original = strText,
                       cleaned = clean_text strText,
                       text_statistics = \<lparr> stat_letter_count = letter_count strText,
                                           stat_word_count = word_count strText,
                                           stat_sentence_count = sc,
                                           stat_average_syllables_per_word =
                                             average_syllables_per_word strText,
                                           stat_average_words_per_sentence = awps \<rparr> \<rparr>,
              res_flesch_kincaid_reading_ease = re,
              res_flesch_kincaid_grade_level = fk,
              res_gunning_fog_score = gf,
              res_coleman_liau_index = cl,
              res_smog_index = sm,
              res_automated_readability_index = ari,
              res_average_grade_level = avg \<rparr>)))))))))"

section \<open>Notions of the specification\<close>

text \<open>
  The arithmetic mean of a list of numbers, an operation that returns a value instead
  of raising, and the upper-case letters.
\<close>

definition mean :: "number list \<Rightarrow> number" where
  "mean xs = (case xs of [] \<Rightarrow> NotFinite | x # ys \<Rightarrow> over (foldl (+) x ys) (length xs))"

definition returns :: "error + 'a \<Rightarrow> bool" where
  "returns r = (case r of Inl e \<Rightarrow> False | Inr v \<Rightarrow> True)"

definition upper_letters :: string where
  "upper_letters = ''ABCDEFGHIJKLMNOPQRSTUVWXYZ''"

section \<open>Notions used in the proofs\<close>

text \<open>
  \<open>only P r\<close>: every character that \<open>r\<close> consumes satisfies \<open>P\<close>. \<open>eats r\<close>: no match of
  \<open>r\<close> is empty. \<open>notags s\<close>: the tag expression matches nowhere in \<open>s\<close>, that is, every
  \<open><\<close> is followed at once by \<open>>\<close> or by no \<open>>\<close> at all. \<open>spacing\<close> relates two
  neighbours of a cleaned text: a terminator is followed by a space, a space by neither a
  space nor a terminator. \<open>rstrip\<close> removes the white space at the end. \<open>clean_front\<close> and
  \<open>clean_back\<close> are the steps of \<open>clean_text\<close> before and after the final terminator is
  appended. \<open>normal\<close> is the form of every cleaned text.
\<close>

fun only :: "(char \<Rightarrow> bool) \<Rightarrow> rx \<Rightarrow> bool" where
  "only P (Chr c) = (\<forall>x. in_cls c x \<longrightarrow> P x)"
| "only P (Str p) = (\<forall>x \<in> set p. P x)"
| "only P Bol = True"
| "only P Eol = True"
| "only P (Seq r1 r2) = (only P r1 \<and> only P r2)"
| "only P (Alt r1 r2) = (only P r1 \<and> only P r2)"
| "only P (Opt r) = only P r"
| "only P (Many n c) = (\<forall>x. in_cls c x \<longrightarrow> P x)"
| "only P (Dbl c) = (\<forall>x. in_cls c x \<longrightarrow> P x)"

fun eats :: "rx \<Rightarrow> bool" where
  "eats (Chr c) = True"
| "eats (Str p) = (p \<noteq> [])"
| "eats Bol = False"
| "eats Eol = False"
| "eats (Seq r1 r2) = (eats r1 \<or> eats r2)"
| "eats (Alt r1 r2) = (eats r1 \<and> eats r2)"
| "eats (Opt r) = False"
| "eats (Many n c) = (0 < n)"
| "eats (Dbl c) = True"

definition angle :: "char \<Rightarrow> bool" where
  "angle c = (c = CHR ''<'' \<or> c = CHR ''>'')"

fun notags :: "string \<Rightarrow> bool" where
  "notags [] = True"
| "notags (c # cs) =
     ((c = CHR ''<'' \<longrightarrow> take 1 cs = ''>'' \<or> CHR ''>'' \<notin> set cs) \<and> notags cs)"

definition dot_or_blank :: "char \<Rightarrow> bool" where
  "dot_or_blank c = (c = CHR ''.'' \<or> c = CHR '' '')"

abbreviation dedup :: "bool \<Rightarrow> string \<Rightarrow> string" where
  "dedup b s \<equiv> replace_from duplicate_rx ''.'' b s"

definition blank :: "char \<Rightarrow> bool" where
  "blank c = (c = CHR '' '')"

abbreviation padded :: "bool \<Rightarrow> string \<Rightarrow> string" where
  "padded b s \<equiv> replace_from pad_rx ''. '' b s"

definition spacing :: "char \<Rightarrow> char \<Rightarrow> bool" where
  "spacing x y = ((x = CHR ''.'' \<longrightarrow> y = CHR '' '') \<and> (x = CHR '' '' \<longrightarrow> \<not> dot_or_blank y))"

definition separated :: "char \<Rightarrow> char \<Rightarrow> bool" where
  "separated x y = (\<not> (x = CHR ''.'' \<and> dot_or_blank y) \<and> \<not> (x = CHR '' '' \<and> y = CHR '' ''))"

definition ws :: "char \<Rightarrow> bool" where
  "ws c = (c \<in> set white_space)"

abbreviation trimmed :: "bool \<Rightarrow> string \<Rightarrow> string" where
  "trimmed b s \<equiv> replace_from trim_rx [] b s"

fun rstrip :: "string \<Rightarrow> string" where
  "rstrip [] = []"
| "rstrip (x # xs) = (if dropWhile ws (x # xs) = [] then [] else x # rstrip xs)"

definition not_gt :: "char \<Rightarrow> bool" where
  "not_gt c = (c \<noteq> CHR ''>'')"

definition okchar :: "char \<Rightarrow> bool" where
  "okchar c = (c \<notin> set '',:;()-!?'' \<and> (ws c \<longrightarrow> c = CHR '' ''))"

definition clean_front :: "string \<Rightarrow> string" where
  "clean_front t =
     replace_all (Many 1 Space) '' ''
       (replace_all trim_rx []
          (replace_all (Chr (Of ''.!?'')) ''.''
             (replace_all (Chr (Of '',:;()-'')) '' ''
                (replace_all objTags []
                   (fold (\<lambda>tag s. replace_str (''</'' @ tag @ ''>'') ''.'' s) arrFullStopTags t)))))"

definition clean_back :: "string \<Rightarrow> string" where
  "clean_back s =
     toLowerCase
       (replace_all (Many 1 (Of '' '')) '' ''
          (replace_all (Many 1 Space) '' ''
             (replace_all trim_rx []
                (replace_all pad_rx ''. ''
                   (replace_all duplicate_rx ''.''
                      (replace_all newline_rx '' '' s))))))"

definition no_double :: "char \<Rightarrow> char \<Rightarrow> bool" where
  "no_double x y = (\<not> (x = CHR '' '' \<and> y = CHR '' ''))"

definition normal :: "string \<Rightarrow> bool" where
  "normal s =
     (s \<noteq> [] \<and> last s = CHR ''.'' \<and> hd s \<noteq> CHR '' '' \<and> successively spacing s \<and>
      (\<forall>c \<in> set s. okchar c \<and> lower_char c = c) \<and> notags s)"

section \<open>The matcher: what a match consumes\<close>

declare replace_from.simps [simp del] matches_from.simps [simp del]

lemma many_accept:
  "many c n accept b s =
     (if n \<le> length (takeWhile (in_cls c) s) then Some (dropWhile (in_cls c) s) else None)"
  by (induction s arbitrary: n b) (auto simp: accept_def)

lemma many_blocked:
  assumes blocked: "\<And>b x xs. in_cls c x \<Longrightarrow> k b (x # xs) = None"
  shows "many c n k b s =
     (if n \<le> length (takeWhile (in_cls c) s)
      then k (b \<and> takeWhile (in_cls c) s = []) (dropWhile (in_cls c) s) else None)"
proof (induction s arbitrary: n b)
  case Nil
  then show ?case by simp
next
  case (Cons x xs)
  show ?case
  proof (cases "in_cls c x")
    case True
    then show ?thesis
      using Cons [of "n - 1" False] blocked [of x b xs]
      by (auto split: option.splits)
  next
    case False
    then show ?thesis by simp
  qed
qed

lemma many_sound:
  assumes "\<And>x. in_cls c x \<Longrightarrow> P x" and "many c n k b s = Some e"
  shows "\<exists>m rest b'. s = m @ rest \<and> (\<forall>x \<in> set m. P x) \<and> n \<le> length m \<and> k b' rest = Some e"
  using assms(2)
proof (induction s arbitrary: n b)
  case Nil
  then show ?case by (auto split: if_splits)
next
  case (Cons x xs)
  show ?case
  proof (cases "in_cls c x \<and> many c (n - 1) k False xs = Some e")
    case True
    then obtain m rest b' where "xs = m @ rest" "\<forall>x \<in> set m. P x" "n - 1 \<le> length m"
      "k b' rest = Some e"
      using Cons.IH by blast
    then have "x # xs = (x # m) @ rest \<and> (\<forall>y \<in> set (x # m). P y) \<and> n \<le> length (x # m) \<and>
      k b' rest = Some e"
      using True assms(1) by auto
    then show ?thesis by blast
  next
    case False
    then have "n = 0 \<and> k b (x # xs) = Some e"
      using Cons.prems by (auto split: if_splits option.splits)
    then have "x # xs = [] @ (x # xs) \<and> (\<forall>y \<in> set []. P y) \<and> n \<le> length ([] :: string) \<and>
      k b (x # xs) = Some e"
      by simp
    then show ?thesis by blast
  qed
qed

lemma rxm_sound:
  "only P r \<Longrightarrow> rxm r k b s = Some e \<Longrightarrow>
   \<exists>m rest b'. s = m @ rest \<and> (\<forall>x \<in> set m. P x) \<and> (eats r \<longrightarrow> m \<noteq> []) \<and> k b' rest = Some e"
proof (induction r arbitrary: k b s e)
  case (Chr c)
  then obtain x xs where "s = x # xs" "in_cls c x" "k False xs = Some e"
    by (auto split: list.splits if_splits)
  then have "s = [x] @ xs \<and> (\<forall>y \<in> set [x]. P y) \<and> [x] \<noteq> [] \<and> k False xs = Some e"
    using Chr.prems(1) by simp
  then show ?case by (metis eats.simps(1))
next
  case (Str p)
  show ?case
  proof (cases "p = []")
    case True
    then have "s = [] @ s \<and> k b s = Some e" using Str by simp
    then show ?thesis using True by fastforce
  next
    case False
    then have "prefix p s" "k False (drop (length p) s) = Some e"
      using Str.prems(2) by (auto split: if_splits)
    then have "s = p @ drop (length p) s"
      by (metis append_eq_conv_conj prefixE)
    then show ?thesis
      using Str.prems(1) False \<open>k False (drop (length p) s) = Some e\<close> by fastforce
  qed
next
  case Bol
  then have "s = [] @ s \<and> k b s = Some e" by (auto split: if_splits)
  then show ?case by fastforce
next
  case Eol
  then have "s = [] @ s \<and> k b s = Some e" by (auto split: if_splits)
  then show ?case by fastforce
next
  case (Seq r1 r2)
  from Seq.prems have o1: "only P r1" and o2: "only P r2" by simp_all
  from Seq.prems(2) have "rxm r1 (\<lambda>b' s'. rxm r2 k b' s') b s = Some e" by simp
  from Seq.IH(1) [OF o1 this]
  obtain m1 rest1 b1 where 1: "s = m1 @ rest1" "\<forall>x \<in> set m1. P x" "eats r1 \<longrightarrow> m1 \<noteq> []"
    "rxm r2 k b1 rest1 = Some e" by blast
  from Seq.IH(2) [OF o2 1(4)]
  obtain m2 rest b2 where 2: "rest1 = m2 @ rest" "\<forall>x \<in> set m2. P x" "eats r2 \<longrightarrow> m2 \<noteq> []"
    "k b2 rest = Some e" by blast
  have "s = (m1 @ m2) @ rest \<and> (\<forall>x \<in> set (m1 @ m2). P x) \<and>
    (eats (Seq r1 r2) \<longrightarrow> m1 @ m2 \<noteq> []) \<and> k b2 rest = Some e"
    using 1 2 by auto
  then show ?case by blast
next
  case (Alt r1 r2)
  from Alt.prems have o1: "only P r1" and o2: "only P r2" by simp_all
  from Alt.prems(2) have "rxm r1 k b s = Some e \<or> rxm r2 k b s = Some e"
    by (auto split: option.splits)
  then show ?case
    using Alt.IH(1) [OF o1] Alt.IH(2) [OF o2] by (metis eats.simps(6))
next
  case (Opt r)
  from Opt.prems(2) have "rxm r k b s = Some e \<or> k b s = Some e"
    by (auto split: option.splits)
  then show ?case
  proof
    assume "rxm r k b s = Some e"
    from Opt.IH [OF _ this] Opt.prems(1) show ?thesis by (metis eats.simps(7) only.simps(7))
  next
    assume "k b s = Some e"
    then have "s = [] @ s \<and> k b s = Some e" by simp
    then show ?thesis by fastforce
  qed
next
  case (Many n c)
  then have "many c n k b s = Some e" by simp
  from many_sound [of c P, OF _ this] Many.prems(1)
  obtain m rest b' where "s = m @ rest" "\<forall>x \<in> set m. P x" "n \<le> length m" "k b' rest = Some e"
    by auto
  then show ?case by fastforce
next
  case (Dbl c)
  then obtain x zs where "s = x # x # zs" "in_cls c x" "k False zs = Some e"
    by (auto split: list.splits if_splits)
  then have "s = [x, x] @ zs \<and> (\<forall>y \<in> set [x, x]. P y) \<and> [x, x] \<noteq> [] \<and> k False zs = Some e"
    using Dbl.prems(1) by simp
  then show ?case by (metis eats.simps(9))
qed

lemma match_here_sound:
  assumes "only P r" and "match_here r b s = Some rest"
  shows "\<exists>m. s = m @ rest \<and> (\<forall>x \<in> set m. P x) \<and> (eats r \<longrightarrow> m \<noteq> [])"
  using rxm_sound [OF assms(1), of accept b s rest] assms(2)
  by (auto simp: match_here_def accept_def)

section \<open>Replacement: characters and tags\<close>

lemma only_True: "only (\<lambda>_. True) r"
  by (induction r) auto

lemma match_here_shorter:
  assumes "eats r" and "match_here r b s = Some rest"
  shows "length rest < length s"
  using match_here_sound [OF only_True assms(2)] assms(1) by auto

lemma match_here_Nil: "eats r \<Longrightarrow> match_here r b [] = None"
  using match_here_shorter [of r b "[]"] by (cases "match_here r b []") auto

lemma replace_from_Nil: "eats r \<Longrightarrow> replace_from r rep b [] = []"
  by (subst replace_from.simps) (simp add: match_here_Nil)

lemma replace_from_Cons:
  assumes "eats r"
  shows "replace_from r rep b (c # cs) =
    (case match_here r b (c # cs) of
       Some rest \<Rightarrow> rep @ replace_from r rep False rest
     | None \<Rightarrow> c # replace_from r rep False cs)"
  using match_here_shorter [OF assms, of b "c # cs"]
  by (subst replace_from.simps) (auto split: option.splits)

lemma set_replace_from:
  assumes "eats r"
  shows "set (replace_from r rep b s) \<subseteq> set s \<union> set rep"
proof (induction s arbitrary: b rule: length_induct)
  case (1 s)
  show ?case
  proof (cases s)
    case Nil
    then show ?thesis using replace_from_Nil [OF assms] by simp
  next
    case (Cons c cs)
    show ?thesis
    proof (cases "match_here r b s")
      case None
      then show ?thesis using Cons 1 [rule_format, of cs False] replace_from_Cons [OF assms, of rep b c cs]
        by auto
    next
      case (Some rest)
      from match_here_sound [OF only_True Some] assms obtain m where m: "s = m @ rest" "m \<noteq> []" by auto
      then have "length rest < length s" by simp
      from 1 [rule_format, OF this, of False]
      have "set (replace_from r rep False rest) \<subseteq> set s \<union> set rep"
        using m(1) by auto
      then show ?thesis
        using Cons Some replace_from_Cons [OF assms, of rep b c cs] by auto
    qed
  qed
qed

lemma notags_append_right: "notags (xs @ ys) \<Longrightarrow> notags ys"
  by (induction xs) auto

lemma notags_plain_append:
  "\<forall>x \<in> set xs. \<not> angle x \<Longrightarrow> notags ys \<Longrightarrow> notags (xs @ ys)"
  by (induction xs) (auto simp: angle_def)

lemma notags_replace_from:
  assumes e: "eats r" and o: "only (\<lambda>x. \<not> angle x) r" and rep: "\<forall>x \<in> set rep. \<not> angle x"
  shows "notags s \<Longrightarrow> notags (replace_from r rep b s)"
proof (induction s arbitrary: b rule: length_induct)
  case (1 s)
  show ?case
  proof (cases s)
    case Nil
    then show ?thesis using replace_from_Nil [OF e] by simp
  next
    case (Cons c cs)
    show ?thesis
    proof (cases "match_here r b s")
      case (Some rest)
      from match_here_sound [OF o Some] e obtain m where m: "s = m @ rest" "m \<noteq> []" by auto
      then have "length rest < length s" by simp
      moreover have "notags rest" using 1(2) m(1) notags_append_right by blast
      ultimately have "notags (replace_from r rep False rest)" using 1(1) by blast
      then show ?thesis
        using Cons Some replace_from_Cons [OF e, of rep b c cs] notags_plain_append [OF rep] by simp
    next
      case None
      have eq: "replace_from r rep b s = c # replace_from r rep False cs"
        using Cons None replace_from_Cons [OF e, of rep b c cs] by simp
      have tl: "notags (replace_from r rep False cs)"
        using 1 Cons by simp
      have hd: "take 1 (replace_from r rep False cs) = ''>'' \<or>
                CHR ''>'' \<notin> set (replace_from r rep False cs)"
        if c: "c = CHR ''<''"
      proof -
        from 1(2) Cons c have "take 1 cs = ''>'' \<or> CHR ''>'' \<notin> set cs" by simp
        then show ?thesis
        proof
          assume "CHR ''>'' \<notin> set cs"
          then have "CHR ''>'' \<notin> set (replace_from r rep False cs)"
            using set_replace_from [OF e, of rep False cs] rep by (auto simp: angle_def)
          then show ?thesis ..
        next
          assume "take 1 cs = ''>''"
          then obtain ds where ds: "cs = CHR ''>'' # ds" by (cases cs) auto
          have "match_here r False cs = None"
          proof (cases "match_here r False cs")
            case (Some rest)
            from match_here_sound [OF o Some] e obtain m where "cs = m @ rest" "m \<noteq> []"
              "\<forall>x \<in> set m. \<not> angle x" by auto
            then show ?thesis using ds by (cases m) (auto simp: angle_def)
          qed simp
          then show ?thesis using ds replace_from_Cons [OF e, of rep False "CHR ''>''" ds] by simp
        qed
      qed
      show ?thesis using eq tl hd by simp
    qed
  qed
qed

section \<open>Single characters and runs of a class\<close>

lemma match_here_Chr:
  "match_here (Chr c) b s = (case s of [] \<Rightarrow> None | x # xs \<Rightarrow> if in_cls c x then Some xs else None)"
  by (simp add: match_here_def accept_def split: list.splits)

lemma replace_from_Chr:
  "replace_from (Chr c) rep b s = concat (map (\<lambda>x. if in_cls c x then rep else [x]) s)"
  by (induction s arbitrary: b) (simp_all add: replace_from_Nil replace_from_Cons match_here_Chr)

lemma replace_all_Of_char:
  "replace_all (Chr (Of cs)) [d] s = map (\<lambda>x. if x \<in> set cs then d else x) s"
  by (induction s) (simp_all add: replace_all_def replace_from_Chr)

lemma replace_all_NotOf_nil:
  "replace_all (Chr (NotOf cs)) [] s = filter (\<lambda>x. x \<in> set cs) s"
  by (induction s) (simp_all add: replace_all_def replace_from_Chr)

lemma matches_from_Chr:
  "matches_from (Chr c) b s = map (\<lambda>x. [x]) (filter (in_cls c) s)"
proof (induction s arbitrary: b)
  case Nil
  then show ?case by (subst matches_from.simps) (simp add: match_here_Chr)
next
  case (Cons x xs)
  then show ?case by (subst matches_from.simps) (simp add: match_here_Chr)
qed

lemma match_here_Many1:
  "match_here (Many (Suc 0) c) b s =
     (case s of [] \<Rightarrow> None | x # xs \<Rightarrow> if in_cls c x then Some (dropWhile (in_cls c) xs) else None)"
  by (cases s) (simp_all add: match_here_def many_accept)

text \<open>Collapsing runs of a class to one character of the class.\<close>

lemma collapse_Cons_out:
  "\<not> in_cls c x \<Longrightarrow>
   replace_from (Many (Suc 0) c) rep b (x # xs) = x # replace_from (Many (Suc 0) c) rep False xs"
  by (simp add: replace_from_Cons match_here_Many1)

lemma collapse_Cons_in:
  "in_cls c x \<Longrightarrow> replace_from (Many (Suc 0) c) rep b (x # xs) =
     rep @ replace_from (Many (Suc 0) c) rep False (dropWhile (in_cls c) xs)"
  by (simp add: replace_from_Cons match_here_Many1)

lemma collapse_only:
  assumes "in_cls c d"
  shows "\<forall>x \<in> set (replace_from (Many (Suc 0) c) [d] b s). in_cls c x \<longrightarrow> x = d"
proof (induction "length s" arbitrary: s b rule: less_induct)
  case less
  show ?case
  proof (cases s)
    case Nil
    then show ?thesis by (simp add: replace_from_Nil)
  next
    case (Cons x xs)
    have "length (dropWhile (in_cls c) xs) < length s"
      using Cons length_dropWhile_le [of "in_cls c" xs] by simp
    from less [OF this, of False] less [of xs False] Cons show ?thesis
      by (cases "in_cls c x") (auto simp: collapse_Cons_in collapse_Cons_out)
  qed
qed

lemma collapse_no_double:
  assumes "in_cls c d"
  shows "successively (\<lambda>x y. \<not> (x = d \<and> y = d)) (replace_from (Many (Suc 0) c) [d] b s)"
proof (induction "length s" arbitrary: s b rule: less_induct)
  case less
  show ?case
  proof (cases s)
    case Nil
    then show ?thesis by (simp add: replace_from_Nil)
  next
    case (Cons x xs)
    show ?thesis
    proof (cases "in_cls c x")
      case False
      then have "x \<noteq> d" using assms by auto
      then show ?thesis
        using less [of xs False] Cons False
        by (simp add: collapse_Cons_out successively_Cons)
    next
      case True
      let ?r = "dropWhile (in_cls c) xs"
      have len: "length ?r < length s"
        using Cons length_dropWhile_le [of "in_cls c" xs] by simp
      have "replace_from (Many (Suc 0) c) [d] False ?r = [] \<or>
        hd (replace_from (Many (Suc 0) c) [d] False ?r) \<noteq> d"
      proof (cases ?r)
        case Nil
        then show ?thesis by (simp add: replace_from_Nil del: dropWhile_eq_Nil_conv)
      next
        case (Cons y ys)
        then have "\<not> in_cls c y" by (metis hd_dropWhile list.sel(1) list.simps(3))
        then show ?thesis using Cons assms by (auto simp: collapse_Cons_out)
      qed
      then show ?thesis
        using less [OF len, of False] Cons True by (auto simp: collapse_Cons_in successively_Cons)
    qed
  qed
qed

lemma collapse_id:
  assumes "in_cls c d"
  shows "\<forall>x \<in> set s. in_cls c x \<longrightarrow> x = d \<Longrightarrow> successively (\<lambda>x y. \<not> (x = d \<and> y = d)) s \<Longrightarrow>
    replace_from (Many (Suc 0) c) [d] b s = s"
proof (induction s arbitrary: b)
  case Nil
  then show ?case by (simp add: replace_from_Nil)
next
  case (Cons x xs)
  have tl: "replace_from (Many (Suc 0) c) [d] False xs = xs"
    using Cons by (auto simp: successively_Cons)
  show ?case
  proof (cases "in_cls c x")
    case False
    then show ?thesis using tl by (simp add: collapse_Cons_out)
  next
    case True
    then have x: "x = d" using Cons.prems by simp
    have "dropWhile (in_cls c) xs = xs"
    proof (cases xs)
      case (Cons y ys)
      then have "y \<noteq> d" using Cons.prems(2) x by (simp add: successively_Cons)
      then have "\<not> in_cls c y" using Cons.prems(1) Cons by auto
      then show ?thesis using Cons by simp
    qed simp
    then show ?thesis
      using tl True x by (simp add: collapse_Cons_in)
  qed
qed

section \<open>Duplicated terminators\<close>

lemma in_cls_dot_blank: "in_cls (Of ''. '') = dot_or_blank"
  by (auto simp: dot_or_blank_def fun_eq_iff)

lemma eats_duplicate: "eats duplicate_rx"
  by (simp add: duplicate_rx_def)

lemma match_here_duplicate:
  "match_here duplicate_rx b s =
     (case s of
        x # y # ys \<Rightarrow> if x = CHR ''.'' \<and> dot_or_blank y then Some (dropWhile dot_or_blank ys) else None
      | _ \<Rightarrow> None)"
  by (simp add: duplicate_rx_def match_here_def many_accept in_cls_dot_blank split: list.splits)

lemma dedup_Nil: "dedup b [] = []"
  by (simp add: replace_from_Nil eats_duplicate)

lemma dedup_keep:
  "x \<noteq> CHR ''.'' \<or> xs = [] \<or> \<not> dot_or_blank (hd xs) \<Longrightarrow> dedup b (x # xs) = x # dedup False xs"
  by (cases xs) (auto simp: replace_from_Cons eats_duplicate match_here_duplicate)

lemma dedup_drop:
  "dot_or_blank y \<Longrightarrow> dedup b (CHR ''.'' # y # ys) = CHR ''.'' # dedup False (dropWhile dot_or_blank ys)"
  by (simp add: replace_from_Cons eats_duplicate match_here_duplicate)

lemma dedup_cases:
  obtains (nil) "s = []"
  | (keep) x xs where "s = x # xs" "x \<noteq> CHR ''.'' \<or> xs = [] \<or> \<not> dot_or_blank (hd xs)"
  | (drop) y ys where "s = CHR ''.'' # y # ys" "dot_or_blank y"
  by (cases s; cases "tl s") auto

lemma dedup_hd: "s \<noteq> [] \<Longrightarrow> dedup b s \<noteq> [] \<and> hd (dedup b s) = hd s"
  by (cases s rule: dedup_cases) (auto simp: dedup_keep dedup_drop)

lemma dedup_separates:
  "successively (\<lambda>x y. \<not> (x = CHR ''.'' \<and> dot_or_blank y)) (dedup b s)"
proof (induction "length s" arbitrary: s b rule: less_induct)
  case less
  show ?case
  proof (cases s rule: dedup_cases)
    case nil
    then show ?thesis by (simp add: dedup_Nil)
  next
    case (keep x xs)
    have "successively (\<lambda>x y. \<not> (x = CHR ''.'' \<and> dot_or_blank y)) (dedup False xs)"
      using less [of xs False] keep by simp
    moreover have "xs \<noteq> [] \<Longrightarrow> hd (dedup False xs) = hd xs" using dedup_hd by simp
    ultimately show ?thesis
      using keep dedup_hd [of xs False]
      by (cases "xs = []") (auto simp: dedup_keep successively_Cons dedup_Nil)
  next
    case (drop y ys)
    let ?r = "dropWhile dot_or_blank ys"
    have len: "length ?r < length s" using drop length_dropWhile_le [of dot_or_blank ys] by simp
    have "?r \<noteq> [] \<Longrightarrow> \<not> dot_or_blank (hd ?r)" using hd_dropWhile by blast
    then have "dedup False ?r = [] \<or> \<not> dot_or_blank (hd (dedup False ?r))"
      using dedup_hd [of ?r False] dedup_Nil [of False] by (cases "?r = []") (auto simp del: dropWhile_eq_Nil_conv)
    then show ?thesis
      using less [OF len, of False] drop by (auto simp: dedup_drop successively_Cons)
  qed
qed

lemma last_dropWhile: "dropWhile P xs \<noteq> [] \<Longrightarrow> last (dropWhile P xs) = last xs"
  by (induction xs) (auto split: if_splits)

lemma dedup_last:
  "s \<noteq> [] \<Longrightarrow> last s = CHR ''.'' \<Longrightarrow> last (dedup b s) = CHR ''.''"
proof (induction "length s" arbitrary: s b rule: less_induct)
  case less
  show ?case
  proof (cases s rule: dedup_cases)
    case nil
    then show ?thesis using less by simp
  next
    case (keep x xs)
    then show ?thesis
      using less.hyps [of xs False] less.prems dedup_hd [of xs False]
      by (cases "xs = []") (auto simp: dedup_keep dedup_Nil)
  next
    case (drop y ys)
    let ?r = "dropWhile dot_or_blank ys"
    have len: "length ?r < length s" using drop length_dropWhile_le [of dot_or_blank ys] by simp
    show ?thesis
    proof (cases "?r = []")
      case True
      then show ?thesis using drop by (simp add: dedup_drop dedup_Nil del: dropWhile_eq_Nil_conv)
    next
      case False
      then have "ys \<noteq> []" by auto
      then have "last ?r = CHR ''.''" using last_dropWhile [OF False] less.prems drop by simp
      then show ?thesis
        using less.hyps [OF len False, of False] drop dedup_hd [OF False, of False]
        by (simp add: dedup_drop)
    qed
  qed
qed

lemma successively_dropWhile: "successively R xs \<Longrightarrow> successively R (dropWhile P xs)"
  by (metis successively_append_iff takeWhile_dropWhile_id)

lemma dedup_no_double:
  "successively (\<lambda>x y. \<not> (x = CHR '' '' \<and> y = CHR '' '')) s \<Longrightarrow>
   successively (\<lambda>x y. \<not> (x = CHR '' '' \<and> y = CHR '' '')) (dedup b s)"
proof (induction "length s" arbitrary: s b rule: less_induct)
  case less
  show ?case
  proof (cases s rule: dedup_cases)
    case nil
    then show ?thesis by (simp add: dedup_Nil)
  next
    case (keep x xs)
    then show ?thesis
      using less.hyps [of xs False] less.prems dedup_hd [of xs False]
      by (cases "xs = []") (auto simp: dedup_keep dedup_Nil successively_Cons)
  next
    case (drop y ys)
    let ?r = "dropWhile dot_or_blank ys"
    have len: "length ?r < length s" using drop length_dropWhile_le [of dot_or_blank ys] by simp
    have "successively (\<lambda>x y. \<not> (x = CHR '' '' \<and> y = CHR '' '')) ?r"
      using less.prems drop successively_dropWhile by (auto simp: successively_Cons)
    then show ?thesis
      using less.hyps [OF len, of False] drop by (auto simp: dedup_drop successively_Cons)
  qed
qed

section \<open>Padding of terminators\<close>

lemma in_cls_blank: "in_cls (Of '' '') = blank"
  by (auto simp: blank_def fun_eq_iff)

lemma eats_pad: "eats pad_rx"
  by (simp add: pad_rx_def)

lemma match_here_pad:
  "match_here pad_rx b s =
     (case dropWhile blank s of [] \<Rightarrow> None | x # xs \<Rightarrow> if x = CHR ''.'' then Some xs else None)"
proof -
  have "match_here pad_rx b s = many (Of '' '') 0 (rxm (Chr (Of ''.'')) accept) b s"
    by (simp add: pad_rx_def match_here_def)
  also have "\<dots> = (if 0 \<le> length (takeWhile (in_cls (Of '' '')) s)
      then rxm (Chr (Of ''.'')) accept (b \<and> takeWhile (in_cls (Of '' '')) s = [])
             (dropWhile (in_cls (Of '' '')) s) else None)"
    by (rule many_blocked) simp
  also have "\<dots> = (case dropWhile blank s of [] \<Rightarrow> None
      | x # xs \<Rightarrow> if x = CHR ''.'' then Some xs else None)"
    by (simp add: in_cls_blank accept_def split: list.splits del: dropWhile_eq_Nil_conv)
  finally show ?thesis .
qed

lemma padded_Nil: "padded b [] = []"
  by (simp add: replace_from_Nil eats_pad)

lemma padded_match:
  assumes "dropWhile blank s = CHR ''.'' # r"
  shows "padded b s = ''. '' @ padded False r"
proof -
  have m: "match_here pad_rx b s = Some r" using assms by (simp add: match_here_pad)
  obtain x xs where s: "s = x # xs" using assms by (cases s) auto
  show ?thesis
    unfolding s using m [unfolded s] by (simp add: replace_from_Cons eats_pad)
qed

lemma padded_keep:
  assumes "dropWhile blank (x # xs) = [] \<or> hd (dropWhile blank (x # xs)) \<noteq> CHR ''.''"
  shows "padded b (x # xs) = x # padded False xs"
proof -
  have "match_here pad_rx b (x # xs) = None"
  proof (cases "dropWhile blank (x # xs)")
    case Nil
    then show ?thesis by (simp only: match_here_pad list.case)
  next
    case (Cons y ys)
    then have "y \<noteq> CHR ''.''" using assms by (simp del: dropWhile.simps)
    then show ?thesis using Cons by (simp only: match_here_pad list.case if_False)
  qed
  then show ?thesis by (simp add: replace_from_Cons eats_pad)
qed

lemma padded_hd: "\<not> dot_or_blank z \<Longrightarrow> padded b (z # zs) = z # padded False zs"
  by (rule padded_keep) (simp add: dot_or_blank_def blank_def)

lemma padded_cases:
  obtains (nil) "s = []"
  | (match) r where "dropWhile blank s = CHR ''.'' # r"
  | (keep) x xs where "s = x # xs" "x \<noteq> CHR ''.''"
      "dropWhile blank s = [] \<or> hd (dropWhile blank s) \<noteq> CHR ''.''"
proof (cases s)
  case Nil
  then show ?thesis using nil by simp
next
  case (Cons x xs)
  show ?thesis
  proof (cases "dropWhile blank s")
    case Nil
    then show ?thesis using keep [of x xs] Cons by (auto simp: blank_def split: if_splits)
  next
    case (Cons y ys)
    show ?thesis
    proof (cases "y = CHR ''.''")
      case True
      then show ?thesis using match Cons by simp
    next
      case False
      then show ?thesis using keep [of x xs] Cons \<open>s = x # xs\<close>
        by (auto simp: blank_def split: if_splits)
    qed
  qed
qed

lemma dropWhile_suffix_length: "dropWhile P s = x # r \<Longrightarrow> length r < length s"
  using length_dropWhile_le [of P s] by simp

lemma padded_spacing:
  "successively separated s \<Longrightarrow> successively spacing (padded b s)"
proof (induction "length s" arbitrary: s b rule: less_induct)
  case less
  show ?case
  proof (cases s rule: padded_cases)
    case nil
    then show ?thesis by (simp add: padded_Nil)
  next
    case (match r)
    have s: "s = takeWhile blank s @ CHR ''.'' # r"
      using match takeWhile_dropWhile_id [of blank s] by simp
    then have "successively separated (CHR ''.'' # r)"
      using less.prems by (metis successively_append_iff)
    then have r: "successively separated r" "r = [] \<or> \<not> dot_or_blank (hd r)"
      by (auto simp: successively_Cons separated_def)
    have "padded False r = [] \<or> \<not> dot_or_blank (hd (padded False r))"
      using r(2) padded_Nil [of False] padded_hd [of "hd r" False "tl r"] by (cases r) auto
    moreover have "successively spacing (padded False r)"
      using less.hyps [OF dropWhile_suffix_length [OF match] r(1)] .
    ultimately show ?thesis
      using padded_match [OF match, of b] by (auto simp: successively_Cons spacing_def dot_or_blank_def)
  next
    case (keep x xs)
    have tl: "successively spacing (padded False xs)"
      using less.hyps [of xs False] less.prems keep(1) by (auto simp: successively_Cons)
    have "xs = [] \<or> \<not> dot_or_blank (hd xs)" if "x = CHR '' ''"
    proof (cases xs)
      case (Cons z zs)
      then have "z \<noteq> CHR '' ''" using less.prems keep(1) that by (simp add: successively_Cons separated_def)
      then have "z \<noteq> CHR ''.''" using keep(1,3) Cons that by (simp add: blank_def)
      then show ?thesis using \<open>z \<noteq> CHR '' ''\<close> Cons by (simp add: dot_or_blank_def)
    qed simp
    then have "x = CHR '' '' \<Longrightarrow> padded False xs = [] \<or> \<not> dot_or_blank (hd (padded False xs))"
      using padded_Nil [of False] padded_hd [of "hd xs" False "tl xs"] by (cases xs) auto
    then show ?thesis
      using tl keep padded_keep [of x xs b] by (auto simp: successively_Cons spacing_def)
  qed
qed

lemma padded_end:
  "s \<noteq> [] \<Longrightarrow> last s = CHR ''.'' \<Longrightarrow> \<exists>u. padded b s = u @ ''. ''"
proof (induction "length s" arbitrary: s b rule: less_induct)
  case less
  show ?case
  proof (cases s rule: padded_cases)
    case nil
    then show ?thesis using less.prems by simp
  next
    case (match r)
    show ?thesis
    proof (cases "r = []")
      case True
      then show ?thesis using padded_match [OF match, of b] by (simp add: padded_Nil)
    next
      case False
      have "last r = CHR ''.''"
        using less.prems match False by (metis last_ConsR last_dropWhile list.simps(3))
      from less.hyps [OF dropWhile_suffix_length [OF match] False this, of False]
      obtain u where "padded False r = u @ ''. ''" by blast
      then have "padded b s = (''. '' @ u) @ ''. ''" using padded_match [OF match, of b] by simp
      then show ?thesis by blast
    qed
  next
    case (keep x xs)
    have "xs \<noteq> []" "last xs = CHR ''.''" using less.prems keep(1,2) by (auto split: if_splits)
    from less.hyps [of xs, OF _ this, of False] keep(1)
    obtain u where "padded False xs = u @ ''. ''" by auto
    then have "padded b s = (x # u) @ ''. ''" using keep padded_keep [of x xs b] by simp
    then show ?thesis by blast
  qed
qed

section \<open>Trimming\<close>

lemma in_cls_Space: "in_cls Space = ws"
  by (auto simp: ws_def fun_eq_iff)

lemma many_cong:
  "(\<And>b' s'. suffix s' s \<Longrightarrow> k b' s' = k' b' s') \<Longrightarrow> many c n k b s = many c n k' b s"
proof (induction s arbitrary: n b)
  case Nil
  then show ?case by simp
next
  case (Cons x xs)
  have "many c (n - 1) k False xs = many c (n - 1) k' False xs"
    using Cons.IH Cons.prems by (simp add: suffix_ConsI)
  moreover have "k b (x # xs) = k' b (x # xs)" using Cons.prems by simp
  ultimately show ?case by (auto split: option.splits)
qed

lemma prefix_single: "prefix [c] s \<Longrightarrow> c \<in> set s"
  by (cases s) auto

lemma suffix_set: "suffix s' s \<Longrightarrow> c \<notin> set s \<Longrightarrow> c \<notin> set s'"
  by (auto simp: suffix_def)

lemma eats_trim: "eats trim_rx"
  by (simp add: trim_rx_def)

lemma many1_accept:
  "many c (Suc 0) accept b s =
     (case s of [] \<Rightarrow> None | x # xs \<Rightarrow> if in_cls c x then Some (dropWhile (in_cls c) xs) else None)"
  by (cases s) (simp_all add: many_accept)

lemma many1_blocked:
  assumes "\<And>b x xs. in_cls c x \<Longrightarrow> k b (x # xs) = None"
  shows "many c (Suc 0) k b s =
     (case s of [] \<Rightarrow> None | x # xs \<Rightarrow> if in_cls c x then k False (dropWhile (in_cls c) xs) else None)"
  by (cases s) (auto simp: many_blocked [of c k, OF assms] split: option.splits)

lemma match_here_trim:
  assumes "LF \<notin> set s"
  shows "match_here trim_rx b s =
    (case s of
       [] \<Rightarrow> None
     | x # xs \<Rightarrow>
         if ws x then (if b then Some (dropWhile ws xs)
                       else if dropWhile ws xs = [] then Some [] else None)
         else None)"
proof -
  let ?k' = "\<lambda>(b' :: bool) (s' :: string). if s' = [] then Some [] else None"
  have np: "\<not> prefix [LF] s" using assms prefix_single [of LF s] by auto
  have "rxm (Seq (Alt Bol (Str [LF])) (Many 1 Space)) accept b s =
    (if b then many Space (Suc 0) accept b s else None)"
    using np by (simp split: option.splits)
  then have first: "rxm (Seq (Alt Bol (Str [LF])) (Many 1 Space)) accept b s =
    (case s of [] \<Rightarrow> None | x # xs \<Rightarrow> if b \<and> ws x then Some (dropWhile ws xs) else None)"
    by (simp add: many1_accept in_cls_Space split: list.splits)
  have "rxm (Seq (Many 1 Space) (Alt Eol (Str [LF]))) accept b s =
    many Space (Suc 0) (rxm (Alt Eol (Str [LF])) accept) b s"
    by simp
  also have "\<dots> = many Space (Suc 0) ?k' b s"
  proof (rule many_cong)
    fix b' s'
    assume "suffix s' s"
    then have "LF \<notin> set s'" using assms suffix_set [of s' s LF] by simp
    then have "\<not> prefix [LF] s'" using prefix_single [of LF s'] by auto
    then show "rxm (Alt Eol (Str [LF])) accept b' s' = ?k' b' s'" by (simp add: accept_def)
  qed
  also have "\<dots> = (case s of [] \<Rightarrow> None
      | x # xs \<Rightarrow> if in_cls Space x then ?k' False (dropWhile (in_cls Space) xs) else None)"
    by (rule many1_blocked) simp
  finally have second: "rxm (Seq (Many 1 Space) (Alt Eol (Str [LF]))) accept b s =
    (case s of [] \<Rightarrow> None
      | x # xs \<Rightarrow> if ws x then (if dropWhile ws xs = [] then Some [] else None) else None)"
    by (simp only: in_cls_Space)
  have "match_here trim_rx b s =
    (case rxm (Seq (Alt Bol (Str [LF])) (Many 1 Space)) accept b s of
       Some e \<Rightarrow> Some e
     | None \<Rightarrow> rxm (Seq (Many 1 Space) (Alt Eol (Str [LF]))) accept b s)"
    by (simp only: trim_rx_def match_here_def rxm.simps(6))
  then have "match_here trim_rx b s =
    (case (case s of [] \<Rightarrow> None
           | x # xs \<Rightarrow> if b \<and> ws x then Some (dropWhile ws xs) else None) of
       Some e \<Rightarrow> Some e
     | None \<Rightarrow> (case s of [] \<Rightarrow> None
          | x # xs \<Rightarrow> if ws x then (if dropWhile ws xs = [] then Some [] else None) else None))"
    by (simp only: first second)
  then show ?thesis
    by (cases s) (auto simp del: dropWhile_eq_Nil_conv)
qed

lemma trimmed_inner:
  "LF \<notin> set s \<Longrightarrow> trimmed False s = rstrip s"
proof (induction s)
  case Nil
  then show ?case by (simp add: replace_from_Nil eats_trim)
next
  case (Cons x xs)
  have m: "match_here trim_rx False (x # xs) =
    (if dropWhile ws (x # xs) = [] then Some [] else None)"
    using Cons.prems by (subst match_here_trim) (auto simp del: dropWhile_eq_Nil_conv)
  show ?case
    using Cons by (simp add: replace_from_Cons eats_trim m replace_from_Nil del: dropWhile_eq_Nil_conv dropWhile.simps)
qed

lemma trimmed_outer:
  assumes "LF \<notin> set s"
  shows "trimmed True s = rstrip (dropWhile ws s)"
proof (cases s)
  case Nil
  then show ?thesis by (simp add: replace_from_Nil eats_trim)
next
  case (Cons x xs)
  have lf: "LF \<notin> set (dropWhile ws s)" using assms by (meson set_dropWhileD)
  show ?thesis
  proof (cases "ws x")
    case True
    then have "match_here trim_rx True s = Some (dropWhile ws s)"
      using assms Cons by (subst match_here_trim) auto
    then show ?thesis
      using Cons trimmed_inner [OF lf] by (simp add: replace_from_Cons eats_trim del: dropWhile.simps)
  next
    case False
    then have "match_here trim_rx True s = None"
      using assms Cons by (subst match_here_trim) auto
    moreover have "LF \<notin> set xs" using assms Cons by simp
    ultimately show ?thesis
      using Cons False trimmed_inner [of xs] by (simp add: replace_from_Cons eats_trim)
  qed
qed

lemma rstrip_snoc: "rstrip (v @ [x]) = (if ws x then rstrip v else v @ [x])"
  by (induction v) (auto simp: dropWhile_append)

section \<open>Line breaks, tags and closing tags\<close>

lemma replace_from_no_match:
  "(\<And>b' s'. suffix s' s \<Longrightarrow> match_here r b' s' = None) \<Longrightarrow> replace_from r rep b s = s"
proof (induction s arbitrary: b)
  case Nil
  then show ?case by (subst replace_from.simps) simp
next
  case (Cons x xs)
  have "replace_from r rep False xs = xs"
    using Cons.IH Cons.prems by (simp add: suffix_ConsI)
  moreover have "match_here r b (x # xs) = None" using Cons.prems by simp
  ultimately show ?case by (subst replace_from.simps) simp
qed

lemma rxm_Seq: "rxm (Seq r1 r2) k = rxm r1 (rxm r2 k)"
  by (rule ext)+ simp

lemma match_here_newline:
  assumes "LF \<notin> set s" and "CR \<notin> set s"
  shows "match_here newline_rx b s = None"
proof (cases "match_here newline_rx b s")
  case (Some e)
  let ?B = "Alt (Str [LF]) (Alt (Str [CR, LF]) (Str [CR]))"
  let ?C = "Many 0 (Of '' '')"
  have "rxm (Many 0 (Of '' '')) (\<lambda>b' s'. rxm ?B (\<lambda>b'' s''. rxm ?C accept b'' s'') b' s') b s = Some e"
    using Some by (simp only: newline_rx_def match_here_def cat.simps rxm_Seq)
  from rxm_sound [OF only_True this]
  obtain m rest b' where s: "s = m @ rest"
    and k: "rxm ?B (\<lambda>b'' s''. rxm ?C accept b'' s'') b' rest = Some e" by blast
  have "only (\<lambda>c. c = LF \<or> c = CR) ?B" by simp
  from rxm_sound [OF this k]
  obtain m' where "\<exists>rest'. rest = m' @ rest'" "\<forall>x \<in> set m'. x = LF \<or> x = CR" "m' \<noteq> []" by auto
  then have "LF \<in> set rest \<or> CR \<in> set rest" by (cases m') auto
  then show ?thesis using assms s by auto
qed simp

lemma newline_id:
  assumes "LF \<notin> set s" and "CR \<notin> set s"
  shows "replace_from newline_rx rep b s = s"
proof (rule replace_from_no_match)
  fix b' s'
  assume "suffix s' s"
  then have "LF \<notin> set s'" "CR \<notin> set s'"
    using assms suffix_set [of s' s LF] suffix_set [of s' s CR] by auto
  then show "match_here newline_rx b' s' = None" by (rule match_here_newline)
qed

lemma in_cls_not_gt: "in_cls (NotOf ''>'') = not_gt"
  by (auto simp: not_gt_def fun_eq_iff)

lemma eats_objTags: "eats objTags"
  by (simp add: objTags_def)

lemma match_here_objTags:
  "match_here objTags b s =
     (case s of
        [] \<Rightarrow> None
      | x # xs \<Rightarrow>
          if x = CHR ''<'' then
            (case xs of
               [] \<Rightarrow> None
             | y # ys \<Rightarrow>
                 if y = CHR ''>'' then None
                 else (case dropWhile not_gt ys of [] \<Rightarrow> None | z # zs \<Rightarrow> Some zs))
          else None)"
proof -
  have "match_here objTags b s =
    (if prefix ''<'' s then many (NotOf ''>'') (Suc 0) (rxm (Str ''>'') accept) False (drop 1 s) else None)"
    by (simp add: objTags_def match_here_def)
  also have "many (NotOf ''>'') (Suc 0) (rxm (Str ''>'') accept) False (drop 1 s) =
    (case drop 1 s of [] \<Rightarrow> None
      | x # xs \<Rightarrow> if in_cls (NotOf ''>'') x
          then rxm (Str ''>'') accept False (dropWhile (in_cls (NotOf ''>'')) xs) else None)"
    by (rule many1_blocked) simp
  finally have "match_here objTags b s =
    (if prefix ''<'' s then
       (case drop 1 s of [] \<Rightarrow> None
        | x # xs \<Rightarrow> if not_gt x then rxm (Str ''>'') accept False (dropWhile not_gt xs) else None)
     else None)"
    by (simp only: in_cls_not_gt)
  moreover have "rxm (Str ''>'') accept False (dropWhile not_gt xs) =
    (case dropWhile not_gt xs of [] \<Rightarrow> None | z # zs \<Rightarrow> Some zs)" for xs
  proof (cases "dropWhile not_gt xs")
    case Nil
    then show ?thesis by (simp del: dropWhile_eq_Nil_conv)
  next
    case (Cons z zs)
    then have "z = CHR ''>''" using hd_dropWhile [of not_gt xs] by (auto simp: not_gt_def)
    then show ?thesis using Cons by (simp add: accept_def)
  qed
  ultimately show ?thesis
    by (cases s; cases "tl s") (auto simp: not_gt_def)
qed

lemma strip_notags: "notags (replace_from objTags [] b s)"
proof (induction "length s" arbitrary: s b rule: less_induct)
  case less
  show ?case
  proof (cases s)
    case Nil
    then show ?thesis by (simp add: replace_from_Nil eats_objTags)
  next
    case (Cons x xs)
    show ?thesis
    proof (cases "match_here objTags b s")
      case (Some rest)
      then have "length rest < length s" using match_here_shorter eats_objTags by blast
      then show ?thesis
        using less Some Cons by (simp add: replace_from_Cons eats_objTags)
    next
      case None
      have tl: "notags (replace_from objTags [] False xs)" using less Cons by simp
      have hd: "take 1 (replace_from objTags [] False xs) = ''>'' \<or>
        CHR ''>'' \<notin> set (replace_from objTags [] False xs)" if x: "x = CHR ''<''"
      proof (cases xs)
        case Nil
        then show ?thesis by (simp add: replace_from_Nil eats_objTags)
      next
        case (Cons y ys)
        show ?thesis
        proof (cases "y = CHR ''>''")
          case True
          then show ?thesis using Cons
            by (simp add: replace_from_Cons eats_objTags match_here_objTags)
        next
          case False
          then have "dropWhile not_gt ys = []"
            using None \<open>s = x # xs\<close> Cons x
            by (auto simp: match_here_objTags split: list.splits simp del: dropWhile_eq_Nil_conv)
          then have "CHR ''>'' \<notin> set xs" using Cons False by (auto simp: not_gt_def)
          then have "CHR ''>'' \<notin> set (replace_from objTags [] False xs)"
            using set_replace_from [OF eats_objTags, of "[]" False xs] by auto
          then show ?thesis ..
        qed
      qed
      show ?thesis
        using None Cons tl hd by (simp add: replace_from_Cons eats_objTags)
    qed
  qed
qed

lemma notags_no_match:
  assumes "notags s"
  shows "match_here objTags b s = None"
proof (cases s)
  case Nil
  then show ?thesis by (simp add: match_here_objTags)
next
  case (Cons x xs)
  show ?thesis
  proof (cases xs)
    case Nil
    then show ?thesis using Cons by (simp add: match_here_objTags)
  next
    case inner: (Cons y ys)
    show ?thesis
    proof (cases "x = CHR ''<'' \<and> y \<noteq> CHR ''>''")
      case True
      then have "CHR ''>'' \<notin> set ys" using assms Cons inner by auto
      then have "dropWhile not_gt ys = []" by (auto simp: not_gt_def)
      then show ?thesis using Cons inner by (simp add: match_here_objTags del: dropWhile_eq_Nil_conv)
    next
      case False
      then show ?thesis using Cons inner by (auto simp: match_here_objTags)
    qed
  qed
qed

lemma strip_id: "notags s \<Longrightarrow> replace_from objTags [] b s = s"
proof (rule replace_from_no_match)
  fix b' s'
  assume "notags s" "suffix s' s"
  then have "notags s'" using notags_append_right by (auto simp: suffix_def)
  then show "match_here objTags b' s' = None" by (rule notags_no_match)
qed

lemma replace_str_id:
  assumes "x \<noteq> CHR ''>''" and "CHR ''>'' \<in> set p"
  shows "notags s \<Longrightarrow> replace_str (CHR ''<'' # x # p) rep s = s"
proof (induction s)
  case Nil
  then show ?case by simp
next
  case (Cons c cs)
  have "\<not> prefix (CHR ''<'' # x # p) (c # cs)"
  proof
    assume "prefix (CHR ''<'' # x # p) (c # cs)"
    then obtain r where "c = CHR ''<''" "cs = x # p @ r" by (auto simp: prefix_def)
    then show False using Cons.prems assms by auto
  qed
  then show ?case using Cons by auto
qed

section \<open>Lower case\<close>

lemma lower_char_changed:
  assumes "lower_char c \<noteq> c"
  shows "(of_char (lower_char c) :: nat) = of_char c + 32 \<and>
    ((65 \<le> (of_char c :: nat) \<and> (of_char c :: nat) \<le> 90) \<or>
     (192 \<le> (of_char c :: nat) \<and> (of_char c :: nat) \<le> 222))"
proof -
  let ?n = "of_char c :: nat"
  have r: "(65 \<le> ?n \<and> ?n \<le> 90) \<or> (192 \<le> ?n \<and> ?n \<le> 222 \<and> ?n \<noteq> 215)"
    using assms unfolding lower_char_def Let_def by (cases "(65 \<le> ?n \<and> ?n \<le> 90) \<or> (192 \<le> ?n \<and> ?n \<le> 222 \<and> ?n \<noteq> 215)") simp_all
  then have "lower_char c = char_of (?n + 32)"
    unfolding lower_char_def Let_def by simp
  moreover have "(?n + 32) mod 256 = ?n + 32" using r by auto
  ultimately have "(of_char (lower_char c) :: nat) = ?n + 32" by (simp only: of_char_of)
  then show ?thesis using r by blast
qed

lemma lower_char_low: "(of_char d :: nat) < 65 \<or> (of_char d :: nat) = 160 \<Longrightarrow> lower_char d = d"
  using lower_char_changed [of d] by fastforce

lemma lower_char_eq_iff:
  assumes "(of_char d :: nat) < 65 \<or> (of_char d :: nat) = 160"
  shows "(lower_char c = d) = (c = d)"
proof
  assume "lower_char c = d"
  then show "c = d" using lower_char_changed [of c] assms by fastforce
next
  assume "c = d"
  then show "lower_char c = d" using lower_char_low [OF assms] by simp
qed

lemma lower_char_idem: "lower_char (lower_char c) = lower_char c"
proof (cases "lower_char c = c")
  case True
  then show ?thesis by simp
next
  case False
  show ?thesis
  proof (rule ccontr)
    assume "lower_char (lower_char c) \<noteq> lower_char c"
    from lower_char_changed [OF this] lower_char_changed [OF False] show False by auto
  qed
qed

lemma lower_char_simps:
  "(lower_char c = CHR ''.'') = (c = CHR ''.'')"
  "(lower_char c = CHR '' '') = (c = CHR '' '')"
  "(lower_char c = CHR ''<'') = (c = CHR ''<'')"
  "(lower_char c = CHR ''>'') = (c = CHR ''>'')"
  "(lower_char c = CHR '','') = (c = CHR '','')"
  "(lower_char c = CHR '':'') = (c = CHR '':'')"
  "(lower_char c = CHR '';'') = (c = CHR '';'')"
  "(lower_char c = CHR ''('') = (c = CHR ''('')"
  "(lower_char c = CHR '')'') = (c = CHR '')'')"
  "(lower_char c = CHR ''-'') = (c = CHR ''-'')"
  "(lower_char c = CHR ''!'') = (c = CHR ''!'')"
  "(lower_char c = CHR ''?'') = (c = CHR ''?'')"
  by (simp_all add: lower_char_eq_iff)

lemma ws_lower: "ws (lower_char c) = ws c"
  by (simp add: ws_def white_space_def lower_char_eq_iff)

lemma okchar_lower:
  assumes "okchar c"
  shows "okchar (lower_char c)"
proof -
  have "lower_char c \<notin> set '',:;()-!?''"
    using assms by (simp add: okchar_def lower_char_simps)
  moreover have "lower_char c = CHR '' ''" if "ws (lower_char c)"
    using that assms by (simp add: okchar_def ws_lower lower_char_simps)
  ultimately show ?thesis by (simp add: okchar_def)
qed

lemma notags_map:
  assumes lt: "\<And>c. (f c = CHR ''<'') = (c = CHR ''<'')" and gt: "\<And>c. (f c = CHR ''>'') = (c = CHR ''>'')"
  shows "notags (map f s) = notags s"
proof (induction s)
  case Nil
  then show ?case by simp
next
  case (Cons c cs)
  have a: "(take 1 (map f cs) = ''>'') = (take 1 cs = ''>'')"
    by (cases cs) (simp_all add: gt)
  have b: "(CHR ''>'' \<in> set (map f cs)) = (CHR ''>'' \<in> set cs)"
  proof
    assume "CHR ''>'' \<in> set (map f cs)"
    then obtain x where "x \<in> set cs" "f x = CHR ''>''" by (metis imageE list.set_map)
    then show "CHR ''>'' \<in> set cs" using gt by simp
  next
    assume "CHR ''>'' \<in> set cs"
    then have "f CHR ''>'' \<in> set (map f cs)" by simp
    then show "CHR ''>'' \<in> set (map f cs)" using gt [of "CHR ''>''"] by simp
  qed
  have "notags (map f (c # cs)) =
    ((f c = CHR ''<'' \<longrightarrow> take 1 (map f cs) = ''>'' \<or> CHR ''>'' \<notin> set (map f cs)) \<and> notags (map f cs))"
    by simp
  also have "\<dots> = ((c = CHR ''<'' \<longrightarrow> take 1 cs = ''>'' \<or> CHR ''>'' \<notin> set cs) \<and> notags cs)"
    by (simp only: a b lt Cons.IH)
  finally show ?case by simp
qed

section \<open>The two halves of the normalizer\<close>

lemma clean_text_stages: "clean_text t = clean_back (clean_front t @ ''.'')"
  by (simp add: clean_text_def clean_front_def clean_back_def duplicate_rx_def pad_rx_def)

lemma successively_conj:
  "successively (\<lambda>x y. P x y \<and> Q x y) xs \<longleftrightarrow> successively P xs \<and> successively Q xs"
  by (induction xs rule: induct_list012) auto

lemma plain_rx:
  "only (\<lambda>x. \<not> angle x) (Chr (Of '',:;()-''))"
  "only (\<lambda>x. \<not> angle x) (Chr (Of ''.!?''))"
  "only (\<lambda>x. \<not> angle x) trim_rx"
  "only (\<lambda>x. \<not> angle x) (Many (Suc 0) Space)"
  "only (\<lambda>x. \<not> angle x) duplicate_rx"
  "only (\<lambda>x. \<not> angle x) pad_rx"
  by (auto simp: trim_rx_def duplicate_rx_def pad_rx_def angle_def white_space_def LF_def)

lemma plain_rep: "\<forall>x \<in> set ''.''. \<not> angle x" "\<forall>x \<in> set '' ''. \<not> angle x"
  "\<forall>x \<in> set ''. ''. \<not> angle x" "\<forall>x \<in> set ''''. \<not> angle x"
  by (simp_all add: angle_def)

lemma okchar_replace_from:
  assumes "eats r" and "\<forall>c \<in> set rep. okchar c" and "\<forall>c \<in> set s. okchar c"
  shows "\<forall>c \<in> set (replace_from r rep b s). okchar c"
  using set_replace_from [OF assms(1), of rep b s] assms(2,3) by auto

lemma okchar_rep: "\<forall>c \<in> set ''.''. okchar c" "\<forall>c \<in> set '' ''. okchar c"
  "\<forall>c \<in> set ''. ''. okchar c" "\<forall>c \<in> set ''''. okchar c"
  by (simp_all add: okchar_def ws_def white_space_def)

lemma clean_front_props:
  "notags (clean_front t) \<and> (\<forall>c \<in> set (clean_front t). okchar c) \<and> successively no_double (clean_front t)"
proof -
  define s1 where "s1 = fold (\<lambda>tag s. replace_str (''</'' @ tag @ ''>'') ''.'' s) arrFullStopTags t"
  define s2 where "s2 = replace_from objTags [] True s1"
  define s3 where "s3 = replace_from (Chr (Of '',:;()-'')) '' '' True s2"
  define s4 where "s4 = replace_from (Chr (Of ''.!?'')) ''.'' True s3"
  define s5 where "s5 = replace_from trim_rx [] True s4"
  define s6 where "s6 = replace_from (Many (Suc 0) Space) '' '' True s5"
  have f: "clean_front t = s6"
    by (simp add: clean_front_def replace_all_def s6_def s5_def s4_def s3_def s2_def s1_def)
  have n2: "notags s2" unfolding s2_def by (rule strip_notags)
  have n3: "notags s3" unfolding s3_def
    by (rule notags_replace_from [OF _ plain_rx(1) plain_rep(2) n2]) simp
  have n4: "notags s4" unfolding s4_def
    by (rule notags_replace_from [OF _ plain_rx(2) plain_rep(1) n3]) simp
  have n5: "notags s5" unfolding s5_def
    by (rule notags_replace_from [OF eats_trim plain_rx(3) plain_rep(4) n4])
  have n6: "notags s6" unfolding s6_def
    by (rule notags_replace_from [OF _ plain_rx(4) plain_rep(2) n5]) simp
  have c3: "\<forall>c \<in> set s3. c \<notin> set '',:;()-''"
    unfolding s3_def using replace_all_Of_char [of "'',:;()-''" "CHR '' ''" s2]
    by (auto simp: replace_all_def)
  have c4: "\<forall>c \<in> set s4. c \<notin> set '',:;()-!?''"
    unfolding s4_def using replace_all_Of_char [of "''.!?''" "CHR ''.''" s3] c3
    by (auto simp: replace_all_def)
  have c5: "\<forall>c \<in> set s5. c \<notin> set '',:;()-!?''"
    unfolding s5_def using set_replace_from [OF eats_trim, of "[]" True s4] c4 by auto
  have c6: "\<forall>c \<in> set s6. c \<notin> set '',:;()-!?''"
    unfolding s6_def using set_replace_from [of "Many (Suc 0) Space" "'' ''" True s5] c5 by auto
  have w6: "\<forall>c \<in> set s6. ws c \<longrightarrow> c = CHR '' ''"
    unfolding s6_def using collapse_only [of Space "CHR '' ''" True s5]
    by (simp add: in_cls_Space ws_def white_space_def)
  have d6: "successively no_double s6"
    unfolding s6_def no_double_def using collapse_no_double [of Space "CHR '' ''" True s5]
    by (simp add: white_space_def)
  show ?thesis unfolding f using n6 c6 w6 d6 by (simp add: okchar_def)
qed

section \<open>The normal form\<close>

lemma okchar_no_newline:
  assumes "\<forall>c \<in> set s. okchar c"
  shows "LF \<notin> set s \<and> CR \<notin> set s"
proof -
  have "\<not> okchar LF" "\<not> okchar CR" by (simp_all add: okchar_def ws_def white_space_def LF_def CR_def)
  then show ?thesis using assms by blast
qed

lemma spacing_no_double: "successively spacing s \<Longrightarrow> successively (\<lambda>x y. \<not> (x = CHR '' '' \<and> y = CHR '' '')) s"
  by (erule successively_mono) (auto simp: spacing_def dot_or_blank_def)

lemma collapse_both_id:
  assumes "\<forall>c \<in> set s. okchar c" and "successively spacing s"
  shows "replace_from (Many (Suc 0) Space) '' '' b s = s"
    and "replace_from (Many (Suc 0) (Of '' '')) '' '' b s = s"
proof -
  have nd: "successively (\<lambda>x y. \<not> (x = CHR '' '' \<and> y = CHR '' '')) s"
    using assms(2) by (rule spacing_no_double)
  have "\<forall>x \<in> set s. in_cls Space x \<longrightarrow> x = CHR '' ''"
    using assms(1) by (simp add: okchar_def in_cls_Space)
  then show "replace_from (Many (Suc 0) Space) '' '' b s = s"
    using nd by (intro collapse_id) (simp_all add: white_space_def)
  show "replace_from (Many (Suc 0) (Of '' '')) '' '' b s = s"
    using nd by (intro collapse_id) simp_all
qed

lemma rstrip_dot_blank: "rstrip (v @ ''. '') = v @ ''.''"
proof -
  have "rstrip ((v @ ''.'') @ '' '') = rstrip (v @ ''.'')"
    by (subst rstrip_snoc) (simp add: ws_def white_space_def)
  also have "\<dots> = v @ ''.''"
    by (subst rstrip_snoc) (simp add: ws_def white_space_def)
  finally show ?thesis by simp
qed

lemma clean_back_normal:
  assumes nt: "notags i" and ok: "\<forall>c \<in> set i. okchar c" and nd: "successively no_double i"
    and ne: "i \<noteq> []" and la: "last i = CHR ''.''"
  shows "normal (clean_back i)"
proof -
  define s7 where "s7 = replace_from duplicate_rx ''.'' True i"
  define s8 where "s8 = replace_from pad_rx ''. '' True s7"
  define s9 where "s9 = replace_from trim_rx [] True s8"
  have s6: "replace_from newline_rx '' '' True i = i"
    using okchar_no_newline [OF ok] by (simp add: newline_id)
  have n7: "notags s7" unfolding s7_def
    by (rule notags_replace_from [OF eats_duplicate plain_rx(5) plain_rep(1) nt])
  have n8: "notags s8" unfolding s8_def
    by (rule notags_replace_from [OF eats_pad plain_rx(6) plain_rep(3) n7])
  have n9: "notags s9" unfolding s9_def
    by (rule notags_replace_from [OF eats_trim plain_rx(3) plain_rep(4) n8])
  have o7: "\<forall>c \<in> set s7. okchar c" unfolding s7_def
    by (rule okchar_replace_from [OF eats_duplicate okchar_rep(1) ok])
  have o8: "\<forall>c \<in> set s8. okchar c" unfolding s8_def
    by (rule okchar_replace_from [OF eats_pad okchar_rep(3) o7])
  have o9: "\<forall>c \<in> set s9. okchar c" unfolding s9_def
    by (rule okchar_replace_from [OF eats_trim okchar_rep(4) o8])
  have "successively separated s7"
    unfolding s7_def separated_def successively_conj
    using dedup_separates [of True i] dedup_no_double [of i True] nd
    by (simp add: no_double_def)
  then have sp8: "successively spacing s8" unfolding s8_def by (rule padded_spacing)
  have "s7 \<noteq> []" "last s7 = CHR ''.''"
    unfolding s7_def using dedup_hd [OF ne, of True] dedup_last [OF ne la, of True] by simp_all
  then obtain u where u: "s8 = u @ ''. ''" unfolding s8_def using padded_end by blast
  have "s9 = rstrip (dropWhile ws s8)"
    unfolding s9_def using okchar_no_newline [OF o8] by (simp add: trimmed_outer)
  also have "dropWhile ws s8 = dropWhile ws u @ ''. ''"
    unfolding u by (simp add: dropWhile_append ws_def white_space_def)
  finally have s9: "s9 = dropWhile ws u @ ''.''" by (simp only: rstrip_dot_blank)
  have "s8 = takeWhile ws u @ s9 @ '' ''" unfolding u s9 by simp
  then have sp9: "successively spacing s9" using sp8 by (simp add: successively_append_iff)
  have ne9: "s9 \<noteq> []" and la9: "last s9 = CHR ''.''" unfolding s9 by simp_all
  have hd9: "hd s9 \<noteq> CHR '' ''"
  proof (cases "dropWhile ws u")
    case Nil
    then show ?thesis unfolding s9 by (simp del: dropWhile_eq_Nil_conv)
  next
    case (Cons y ys)
    then have "\<not> ws y" using hd_dropWhile [of ws u] by (metis list.sel(1) list.simps(3))
    then show ?thesis unfolding s9 using Cons by (auto simp: ws_def white_space_def)
  qed
  have b: "clean_back i = map lower_char s9"
    unfolding clean_back_def replace_all_def toLowerCase_def
    using s6 collapse_both_id [OF o9 sp9]
    by (simp add: s7_def [symmetric] s8_def [symmetric] s9_def [symmetric])
  have "successively spacing (map lower_char s9)"
    using sp9 by (simp add: successively_map spacing_def dot_or_blank_def lower_char_simps)
  moreover have "notags (map lower_char s9)"
    using n9 by (simp add: notags_map lower_char_simps)
  moreover have "hd (map lower_char s9) \<noteq> CHR '' ''"
    using hd9 ne9 by (simp add: hd_map lower_char_simps)
  moreover have "last (map lower_char s9) = CHR ''.''"
    using la9 ne9 by (simp add: last_map lower_char_simps)
  moreover have "\<forall>c \<in> set (map lower_char s9). okchar c \<and> lower_char c = c"
    using o9 by (auto simp: okchar_lower lower_char_idem)
  ultimately show ?thesis unfolding b normal_def using ne9 by simp
qed

lemma notags_append_plain:
  "notags xs \<Longrightarrow> \<forall>x \<in> set ys. \<not> angle x \<Longrightarrow> notags (xs @ ys)"
proof (induction xs)
  case Nil
  then show ?case using notags_plain_append [of ys "[]"] by simp
next
  case (Cons c cs)
  have "CHR ''>'' \<notin> set ys" using Cons.prems(2) by (auto simp: angle_def)
  moreover have "take 1 (cs @ ys) = ''>''" if "take 1 cs = ''>''"
    using that by (cases cs) auto
  ultimately show ?case using Cons by auto
qed

lemma clean_text_normal: "normal (clean_text t)"
proof -
  let ?i = "clean_front t @ ''.''"
  have "notags ?i"
    using clean_front_props [of t] by (intro notags_append_plain) (simp_all add: angle_def)
  moreover have "\<forall>c \<in> set ?i. okchar c"
    using clean_front_props [of t] okchar_rep(1) by simp
  moreover have "successively no_double ?i"
    using clean_front_props [of t] by (simp add: successively_append_iff no_double_def)
  ultimately show ?thesis
    unfolding clean_text_stages by (intro clean_back_normal) simp_all
qed

lemma repad:
  "successively spacing s \<Longrightarrow> s \<noteq> [] \<Longrightarrow> last s = CHR ''.'' \<Longrightarrow>
   padded b (dedup b' (s @ ''.'')) = s @ '' ''"
proof (induction "length s" arbitrary: s b b' rule: less_induct)
  case less
  from less.prems(2) obtain x s' where s: "s = x # s'" by (cases s) auto
  show ?case
  proof (cases "x = CHR ''.''")
    case True
    show ?thesis
    proof (cases s')
      case Nil
      have "dedup b' ''..'' = ''.''"
        using dedup_drop [of "CHR ''.''" b' "[]"] by (simp add: dot_or_blank_def dedup_Nil)
      moreover have "padded b ''.'' = ''. ''"
        using padded_match [of "''.''" "[]" b] by (simp add: blank_def padded_Nil)
      ultimately show ?thesis using s True Nil by simp
    next
      case (Cons y s'')
      have y: "y = CHR '' ''" using less.prems(1) s True Cons by (simp add: spacing_def)
      have ne: "s'' \<noteq> []" using less.prems(3) s Cons y by auto
      then have la: "last s'' = CHR ''.''" using less.prems(3) s Cons by simp
      have sp: "successively spacing s''" using less.prems(1) s Cons by (auto simp: successively_Cons)
      have "\<not> dot_or_blank (hd s'')"
        using less.prems(1) s Cons y ne by (simp add: successively_Cons spacing_def)
      then have "dropWhile dot_or_blank (s'' @ ''.'') = s'' @ ''.''"
        using ne by (cases s'') auto
      then have "dedup b' (s @ ''.'') = CHR ''.'' # dedup False (s'' @ ''.'')"
        using s True Cons y dedup_drop [of "CHR '' ''" b' "s'' @ ''.''"] by (simp add: dot_or_blank_def)
      moreover have "padded b (CHR ''.'' # dedup False (s'' @ ''.'')) =
        ''. '' @ padded False (dedup False (s'' @ ''.''))"
        by (rule padded_match) (simp add: blank_def)
      moreover have "padded False (dedup False (s'' @ ''.'')) = s'' @ '' ''"
        using less.hyps [of s'' False False] sp ne la s Cons by simp
      ultimately show ?thesis using s True Cons y by simp
    qed
  next
    case False
    then have ne: "s' \<noteq> []" using less.prems(3) s by auto
    then have la: "last s' = CHR ''.''" using less.prems(3) s by simp
    have sp: "successively spacing s'" using less.prems(1) s by (auto simp: successively_Cons)
    let ?d = "dedup False (s' @ ''.'')"
    have d: "dedup b' (s @ ''.'') = x # ?d"
      using s False dedup_keep [of x "s' @ ''.''" b'] by simp
    have hd: "?d \<noteq> [] \<and> hd ?d = hd s'" using dedup_hd [of "s' @ ''.''" False] ne by simp
    have "dropWhile blank (x # ?d) = [] \<or> hd (dropWhile blank (x # ?d)) \<noteq> CHR ''.''"
    proof (cases "x = CHR '' ''")
      case True
      then have "\<not> dot_or_blank (hd s')"
        using less.prems(1) s ne by (simp add: successively_Cons spacing_def)
      then have "dropWhile blank ?d = ?d" "hd ?d \<noteq> CHR ''.''"
        using hd by (cases ?d; auto simp: blank_def dot_or_blank_def)+
      then show ?thesis using True by (simp add: blank_def)
    next
      case nb: False
      then show ?thesis using False by (simp add: blank_def)
    qed
    then have "padded b (x # ?d) = x # padded False ?d" by (rule padded_keep)
    moreover have "padded False ?d = s' @ '' ''"
      using less.hyps [of s' False False] sp ne la s by simp
    ultimately show ?thesis using d s by simp
  qed
qed

section \<open>Normal strings are fixed points\<close>

lemma rstrip_id: "s \<noteq> [] \<Longrightarrow> \<not> ws (last s) \<Longrightarrow> rstrip s = s"
  using rstrip_snoc [of "butlast s" "last s"] by simp

lemma normal_hd:
  assumes "normal s"
  shows "\<not> ws (hd s)"
proof -
  have "okchar (hd s)" "hd s \<noteq> CHR '' ''" using assms by (simp_all add: normal_def)
  then show ?thesis by (auto simp: okchar_def)
qed

lemma trimmed_normal:
  assumes "normal s"
  shows "replace_from trim_rx [] True s = s"
proof -
  have ok: "\<forall>c \<in> set s. okchar c" and ne: "s \<noteq> []" and la: "last s = CHR ''.''"
    using assms by (simp_all add: normal_def)
  have "dropWhile ws s = s" using ne normal_hd [OF assms] by (cases s) auto
  moreover have "rstrip s = s" using ne la by (intro rstrip_id) (simp_all add: ws_def white_space_def)
  ultimately show ?thesis using okchar_no_newline [OF ok] by (simp add: trimmed_outer)
qed

lemma clean_front_id:
  assumes "normal s"
  shows "clean_front s = s"
proof -
  have nt: "notags s" and ok: "\<forall>c \<in> set s. okchar c" and sp: "successively spacing s"
    using assms by (simp_all add: normal_def)
  have s1: "fold (\<lambda>tag s. replace_str (''</'' @ tag @ ''>'') ''.'' s) arrFullStopTags s = s"
    using nt by (simp add: arrFullStopTags_def replace_str_id)
  have s2: "replace_all objTags [] s = s"
    using nt by (simp add: replace_all_def strip_id)
  have s3: "replace_all (Chr (Of '',:;()-'')) '' '' s = s"
    unfolding replace_all_Of_char using ok by (intro map_idI) (auto simp: okchar_def)
  have s4: "replace_all (Chr (Of ''.!?'')) ''.'' s = s"
    unfolding replace_all_Of_char using ok by (intro map_idI) (auto simp: okchar_def)
  have s5: "replace_all trim_rx [] s = s"
    using assms by (simp add: replace_all_def trimmed_normal)
  have s6: "replace_all (Many 1 Space) '' '' s = s"
    using collapse_both_id(1) [OF ok sp] by (simp add: replace_all_def)
  show ?thesis
    unfolding clean_front_def by (simp only: s1 s2 s3 s4 s5 s6)
qed

lemma clean_back_id:
  assumes "normal s"
  shows "clean_back (s @ ''.'') = s"
proof -
  have nt: "notags s" and ok: "\<forall>c \<in> set s. okchar c" and sp: "successively spacing s"
    and ne: "s \<noteq> []" and la: "last s = CHR ''.''" and lo: "\<forall>c \<in> set s. lower_char c = c"
    using assms by (simp_all add: normal_def)
  have "\<forall>c \<in> set (s @ ''.''). okchar c" using ok okchar_rep(1) by simp
  then have s6: "replace_all newline_rx '' '' (s @ ''.'') = s @ ''.''"
    using okchar_no_newline [of "s @ ''.''"] by (simp add: replace_all_def newline_id)
  have s8: "replace_all pad_rx ''. '' (replace_all duplicate_rx ''.'' (s @ ''.'')) = s @ '' ''"
    using repad [OF sp ne la] by (simp add: replace_all_def)
  have "replace_from trim_rx [] True (s @ '' '') = rstrip (dropWhile ws (s @ '' ''))"
    using okchar_no_newline [OF ok] by (intro trimmed_outer) (simp add: LF_def)
  also have "dropWhile ws (s @ '' '') = s @ '' ''"
    using ne normal_hd [OF assms] by (cases s) auto
  also have "rstrip (s @ '' '') = s"
    using rstrip_snoc [of s "CHR '' ''"] rstrip_id [OF ne] la by (simp add: ws_def white_space_def)
  finally have s9: "replace_all trim_rx [] (s @ '' '') = s" by (simp add: replace_all_def)
  have s10: "replace_all (Many 1 Space) '' '' s = s" "replace_all (Many 1 (Of '' '')) '' '' s = s"
    using collapse_both_id [OF ok sp] by (simp_all add: replace_all_def)
  have s11: "toLowerCase s = s" unfolding toLowerCase_def using lo by (intro map_idI) simp
  show ?thesis
    unfolding clean_back_def by (simp only: s6 s8 s9 s10 s11)
qed

lemma clean_text_fixed: "normal s \<Longrightarrow> clean_text s = s"
  by (simp add: clean_text_stages clean_front_id clean_back_id)

section \<open>Counting words and sentences\<close>

lemma successively_sublist:
  "successively R s \<Longrightarrow> sublist [x, y] s \<Longrightarrow> R x y"
  by (auto simp: sublist_def successively_append_iff)

lemma lower_char_fixed_not_upper:
  assumes "lower_char c = c"
  shows "c \<notin> set upper_letters"
proof
  assume "c \<in> set upper_letters"
  then have "65 \<le> (of_char c :: nat) \<and> (of_char c :: nat) \<le> 90"
    by (auto simp: upper_letters_def)
  then have "lower_char c = char_of ((of_char c :: nat) + 32)"
    by (simp add: lower_char_def)
  then have "(of_char c :: nat) = ((of_char c :: nat) + 32) mod 256"
    using assms by (metis of_char_of)
  then show False using \<open>65 \<le> (of_char c :: nat) \<and> (of_char c :: nat) \<le> 90\<close> by auto
qed

lemma sentence_count_value:
  "sentence_count t = Inr (length (filter (\<lambda>c. c = CHR ''.'') (clean_text t))) \<and>
   1 \<le> length (filter (\<lambda>c. c = CHR ''.'') (clean_text t))"
proof -
  let ?o = "clean_text t"
  have n: "normal ?o" by (rule clean_text_normal)
  then have ok: "\<forall>c \<in> set ?o. okchar c" and ne: "?o \<noteq> []" and la: "last ?o = CHR ''.''"
    by (simp_all add: normal_def)
  have "filter (in_cls (Of ''.!?'')) ?o = filter (\<lambda>c. c = CHR ''.'') ?o"
    using ok by (intro filter_cong) (auto simp: okchar_def)
  then have m: "matches_from (Chr (Of ''.!?'')) True ?o = map (\<lambda>x. [x]) (filter (\<lambda>c. c = CHR ''.'') ?o)"
    by (simp add: matches_from_Chr)
  have "CHR ''.'' \<in> set ?o" using ne la last_in_set by metis
  then have "filter (\<lambda>c. c = CHR ''.'') ?o \<noteq> []" by (simp add: filter_empty_conv)
  then show ?thesis
    using m by (cases "filter (\<lambda>c. c = CHR ''.'') ?o") (simp_all add: sentence_count_def match_all_def Let_def)
qed

lemma word_count_value:
  "word_count t = 1 + length (filter (\<lambda>c. c = CHR '' '') (clean_text t))"
  by (simp add: word_count_def text_length_def replace_all_NotOf_nil)

lemma dots_le_blanks:
  "successively spacing s \<Longrightarrow>
   length (filter (\<lambda>c. c = CHR ''.'') s) \<le> 1 + length (filter (\<lambda>c. c = CHR '' '') s)"
proof (induction s rule: induct_list012)
  case (3 x y zs)
  show ?case
  proof (cases "x = CHR ''.''")
    case True
    then have "y = CHR '' ''" using 3(3) by (simp add: spacing_def)
    moreover have "successively spacing zs" using 3(3) by (cases zs) auto
    ultimately show ?thesis using 3(1) True by simp
  next
    case False
    have "successively spacing (y # zs)" using 3(3) by simp
    then have "length (filter (\<lambda>c. c = CHR ''.'') (y # zs)) \<le>
      1 + length (filter (\<lambda>c. c = CHR '' '') (y # zs))" by (rule 3(2))
    moreover have "length (filter (\<lambda>c. c = CHR ''.'') (x # y # zs)) =
      length (filter (\<lambda>c. c = CHR ''.'') (y # zs))" using False by simp
    moreover have "length (filter (\<lambda>c. c = CHR '' '') (y # zs)) \<le>
      length (filter (\<lambda>c. c = CHR '' '') (x # y # zs))" by simp
    ultimately show ?thesis by linarith
  qed
qed simp_all

lemma sentences_le_words:
  "\<exists>n. sentence_count t = Inr n \<and> 1 \<le> n \<and> n \<le> word_count t"
proof -
  have "successively spacing (clean_text t)" using clean_text_normal [of t] by (simp add: normal_def)
  from dots_le_blanks [OF this] show ?thesis
    using sentence_count_value [of t] word_count_value [of t] by simp
qed

lemma average_words_per_sentence_value:
  "\<exists>x. average_words_per_sentence t = Inr (Fin x) \<and> 1 \<le> x"
proof -
  obtain n where n: "sentence_count (clean_text t) = Inr n" "1 \<le> n" "n \<le> word_count (clean_text t)"
    using sentences_le_words [of "clean_text t"] by blast
  then have "average_words_per_sentence t = Inr (Fin (real (word_count (clean_text t)) / real n))"
    by (simp add: average_words_per_sentence_def bind_error_def num_def)
  moreover have "1 \<le> real (word_count (clean_text t)) / real n"
    using n by simp
  ultimately show ?thesis by blast
qed

section \<open>Every score returns\<close>

lemma sentence_count_cleaned:
  obtains n where "sentence_count (clean_text t) = Inr n" "1 \<le> n"
  using sentences_le_words [of "clean_text t"] by blast

lemma word_count_positive: "1 \<le> word_count t"
  by (simp add: word_count_value)

lemma over_finite: "1 \<le> n \<Longrightarrow> over (Fin x) n = Fin (x / real n)"
  by simp

lemma percentage_finite: "\<exists>x. percentage_words_with_three_syllables t b = Fin x"
proof -
  let ?w = "word_count (clean_text (clean_text t))"
  have w: "1 \<le> ?w" by (rule word_count_positive)
  have "percentage_words_with_three_syllables t b =
    Fin (real (words_with_three_syllables (clean_text t) True) / real ?w) * Fin 100"
    unfolding percentage_words_with_three_syllables_def Let_def num_def
    by (simp only: over_finite [OF w])
  then show ?thesis by simp
qed

lemma flesch_kincaid_reading_ease_returns: "\<exists>x. flesch_kincaid_reading_ease t = Inr x"
  using average_words_per_sentence_value [of "clean_text t"]
  by (auto simp: flesch_kincaid_reading_ease_def bind_error_def)

lemma flesch_kincaid_grade_level_returns: "\<exists>x. flesch_kincaid_grade_level t = Inr x"
  using average_words_per_sentence_value [of "clean_text t"]
  by (auto simp: flesch_kincaid_grade_level_def bind_error_def)

lemma gunning_fog_score_returns: "\<exists>x. gunning_fog_score t = Inr (Fin x)"
proof -
  obtain a where a: "average_words_per_sentence (clean_text t) = Inr (Fin a)"
    using average_words_per_sentence_value [of "clean_text t"] by blast
  obtain p where p: "percentage_words_with_three_syllables (clean_text t) False = Fin p"
    using percentage_finite by blast
  have "gunning_fog_score t = Inr (Fin ((a + p) * 0.4))"
    by (simp add: gunning_fog_score_def bind_error_def a p Let_def)
  then show ?thesis by blast
qed

lemma coleman_liau_index_returns: "\<exists>x. coleman_liau_index t = Inr (Fin x)"
proof -
  obtain n where n: "sentence_count (clean_text t) = Inr n" "1 \<le> n"
    by (rule sentence_count_cleaned)
  let ?w = "word_count (clean_text t)"
  have w: "1 \<le> ?w" by (rule word_count_positive)
  have "coleman_liau_index t =
    Inr (Fin 5.89 * Fin (real (letter_count (clean_text t)) / real ?w)
         - Fin 0.3 * Fin (real n / real ?w) - Fin 15.8)"
    unfolding coleman_liau_index_def Let_def bind_error_def n num_def
    by (simp only: over_finite [OF w] sum.case)
  then show ?thesis by simp
qed

lemma smog_index_returns: "\<exists>x. smog_index t = Inr (Fin x)"
proof -
  obtain n where n: "sentence_count (clean_text t) = Inr n" "1 \<le> n"
    by (rule sentence_count_cleaned)
  define z where "z = real (words_with_three_syllables (clean_text t) False) * (30 / real n) + 3.1291"
  have z: "0 \<le> z" unfolding z_def by (simp add: add_nonneg_nonneg)
  have "smog_index t =
    Inr (Fin 1.043 * math_sqrt (Fin (real (words_with_three_syllables (clean_text t) False))
                                  * Fin (30 / real n) + Fin 3.1291))"
    unfolding smog_index_def Let_def bind_error_def n num_def
    by (simp only: over_finite [OF n(2)] sum.case)
  also have "\<dots> = Inr (Fin 1.043 * math_sqrt (Fin z))"
    unfolding z_def by simp
  also have "\<dots> = Inr (Fin (1.043 * sqrt z))"
    using z by simp
  finally show ?thesis by blast
qed

lemma automated_readability_index_returns: "\<exists>x. automated_readability_index t = Inr (Fin x)"
proof -
  obtain n where n: "sentence_count (clean_text t) = Inr n" "1 \<le> n"
    by (rule sentence_count_cleaned)
  let ?w = "word_count (clean_text t)"
  have w: "1 \<le> ?w" by (rule word_count_positive)
  have "automated_readability_index t =
    Inr (Fin 4.71 * Fin (real (letter_count (clean_text t)) / real ?w)
         + Fin 0.5 * Fin (real ?w / real n) - Fin 21.43)"
    unfolding automated_readability_index_def Let_def bind_error_def n num_def
    by (simp only: over_finite [OF w] over_finite [OF n(2)] sum.case)
  then show ?thesis by simp
qed

lemma average_grade_level_value:
  "\<exists>a b c d e. flesch_kincaid_grade_level t = Inr a \<and> gunning_fog_score t = Inr b \<and>
     coleman_liau_index t = Inr c \<and> smog_index t = Inr d \<and>
     automated_readability_index t = Inr e \<and>
     average_grade_level t = Inr (over (a + b + c + d + e) 5)"
proof -
  obtain a where a: "flesch_kincaid_grade_level t = Inr a"
    using flesch_kincaid_grade_level_returns by blast
  obtain b where b: "gunning_fog_score t = Inr (Fin b)"
    using gunning_fog_score_returns by blast
  obtain c where c: "coleman_liau_index t = Inr (Fin c)"
    using coleman_liau_index_returns by blast
  obtain d where d: "smog_index t = Inr (Fin d)"
    using smog_index_returns by blast
  obtain e where e: "automated_readability_index t = Inr (Fin e)"
    using automated_readability_index_returns by blast
  have "average_grade_level t = Inr (over (a + Fin b + Fin c + Fin d + Fin e) 5)"
    by (simp add: average_grade_level_def bind_error_def a b c d e)
  then show ?thesis using a b c d e by blast
qed

section \<open>The syllable estimator on particular words\<close>

text \<open>
  C1 claims that \<open>syllable_count\<close> returns an integer that is at least 1 for every
  word, a count of 0 or less being clamped to 1. The source clamps a count of exactly 0
  only: the word \<open>ched\<close> has one vowel group and matches two of the subtractive patterns,
  and the count returned is -1.
\<close>

theorem syllable_count_ched: "syllable_count ''ched'' = Num (- 1)"
  by code_simp

text \<open>
  The same function on a key that the table of problem words inherits: the value returned
  is the inherited one, not a number.
\<close>

lemma syllable_count_constructor: "syllable_count ''constructor'' = ObjectFunction"
  by code_simp

text \<open>
  C2, as amended: \<open>syllable_count\<close> of the word \<open>lion\<close> is 1, not the 2 of the claim.
  The source counts one vowel group, takes one off for \<open>ion\<close> and adds one for \<open>io\<close>.
\<close>

theorem syllable_count_lion: "syllable_count ''lion'' = Num 1"
  by code_simp

theorem syllable_count_lion_is_not_two: "syllable_count ''lion'' \<noteq> Num 2"
  by code_simp

text \<open>
  C5 claims that a terminator at the end of a word does not change its syllable count.
  The source looks the word up in the table of problem words and strips the affixes
  before it removes the characters that are not letters: \<open>simile\<close> is found in the table
  and counts 3, \<open>simile.\<close> is not found and counts 2.
\<close>

theorem syllable_count_simile_terminator:
  "syllable_count ''simile'' = Num 3 \<and> syllable_count (''simile'' @ ''.'') = Num 2"
  by code_simp

text \<open>
  The affixes: \<open>less\<close> is stripped from \<open>careless\<close> and counted as one syllable, but
  not from \<open>careless.\<close>, where the terminator hides the end of the word.
\<close>

lemma syllable_count_careless_terminator:
  "syllable_count ''careless'' = Num 2 \<and> syllable_count (''careless'' @ ''.'') = Num 3"
  by code_simp

section \<open>Closing tags\<close>

text \<open>
  C4 claims that every closing tag of a block-level element becomes a terminator, so
  that three closing \<open>p\<close> tags give three sentence breaks. The source calls \<open>replace\<close> with a string
  pattern, which replaces the first occurrence only: of three closing \<open>p\<close> tags the
  second and the third are stripped with the other tags, and two sentences are counted.
\<close>

theorem clean_text_three_closing_tags:
  "clean_text ''<p>a</p><p>b</p><p>c</p>'' = ''a. bc.'' \<and>
   sentence_count ''<p>a</p><p>b</p><p>c</p>'' = Inr 2"
  by code_simp

section \<open>The proper-noun flag\<close>

lemma three_syllables_example:
  "words_with_three_syllables ''a delicious banana'' False = 2"
  by code_simp

lemma clean_text_example: "clean_text ''a delicious banana'' = ''a delicious banana.''"
  by code_simp

lemma three_syllables_example_cleaned:
  "words_with_three_syllables ''a delicious banana.'' True = 2"
  by code_simp

lemma clean_text_example_cleaned:
  "clean_text ''a delicious banana.'' = ''a delicious banana.''"
  by code_simp

lemma word_count_example_cleaned: "word_count ''a delicious banana.'' = 3"
  by code_simp

lemma percentage_example:
  "percentage_words_with_three_syllables ''a delicious banana'' False = Fin (200 / 3)"
  by (simp add: percentage_words_with_three_syllables_def clean_text_example
      clean_text_example_cleaned three_syllables_example_cleaned word_count_example_cleaned
      num_def)

text \<open>
  C6: the flag \<open>blnCountProperNouns\<close> has no effect: \<open>words_with_three_syllables\<close> and
  \<open>percentage_words_with_three_syllables\<close> return the same value for both values of the
  flag, on every text.
\<close>

theorem count_proper_nouns_inert:
  "words_with_three_syllables t True = words_with_three_syllables t False \<and>
   percentage_words_with_three_syllables t True = percentage_words_with_three_syllables t False"
  by (simp add: words_with_three_syllables_def percentage_words_with_three_syllables_def)

theorem count_proper_nouns_inert_witness:
  "words_with_three_syllables ''a delicious banana'' True = 2 \<and>
   words_with_three_syllables ''a delicious banana'' False = 2 \<and>
   percentage_words_with_three_syllables ''a delicious banana'' True = Fin (200 / 3) \<and>
   percentage_words_with_three_syllables ''a delicious banana'' False = Fin (200 / 3)"
  using count_proper_nouns_inert [of "''a delicious banana''"]
    three_syllables_example percentage_example by simp

section \<open>The normalizer\<close>

lemma clean_text_sample:
  "clean_text ''<p>this is a test delicious</p><br />I hope THIS works!'' =
   ''this is a test delicious. i hope this works.''"
  by code_simp

text \<open>
  C3: normalization is idempotent: cleaning a cleaned text gives the same text, for
  every input string.
\<close>

theorem clean_text_idempotent: "clean_text (clean_text t) = clean_text t"
  by (rule clean_text_fixed) (rule clean_text_normal)

theorem clean_text_idempotent_witness:
  "clean_text (clean_text ''<p>this is a test delicious</p><br />I hope THIS works!'') =
   ''this is a test delicious. i hope this works.''"
  using clean_text_idempotent [of "''<p>this is a test delicious</p><br />I hope THIS works!''"]
    clean_text_sample by simp

lemma clean_text_mixed: "clean_text '' Mr. Smith ,said:  NO !? '' = ''mr. smith said no.''"
  by code_simp

text \<open>
  C9: for every input string the cleaned text has no two terminators in a row, no
  space before a terminator, no white space at either end, no two spaces in a row, it
  ends with exactly one terminator, and it has no upper-case letter (lower-casing
  it again changes nothing).
\<close>

theorem clean_text_normalized:
  "\<not> sublist ''..'' (clean_text t) \<and>
   \<not> sublist '' .'' (clean_text t) \<and>
   clean_text t \<noteq> [] \<and>
   hd (clean_text t) \<notin> set white_space \<and>
   last (clean_text t) \<notin> set white_space \<and>
   \<not> sublist ''  '' (clean_text t) \<and>
   (\<exists>u. clean_text t = u @ ''.'' \<and> (u = [] \<or> last u \<noteq> CHR ''.'')) \<and>
   (\<forall>c \<in> set (clean_text t). c \<notin> set upper_letters) \<and>
   toLowerCase (clean_text t) = clean_text t"
proof -
  let ?o = "clean_text t"
  have n: "normal ?o" by (rule clean_text_normal)
  then have ne: "?o \<noteq> []" and la: "last ?o = CHR ''.''" and sp: "successively spacing ?o"
    and lo: "\<forall>c \<in> set ?o. lower_char c = c"
    by (simp_all add: normal_def)
  have 1: "\<not> sublist ''..'' ?o"
    using successively_sublist [OF sp, of "CHR ''.''" "CHR ''.''"] by (auto simp: spacing_def)
  have 2: "\<not> sublist '' .'' ?o"
    using successively_sublist [OF sp, of "CHR '' ''" "CHR ''.''"]
    by (auto simp: spacing_def dot_or_blank_def)
  have 3: "\<not> sublist ''  '' ?o"
    using successively_sublist [OF sp, of "CHR '' ''" "CHR '' ''"]
    by (auto simp: spacing_def dot_or_blank_def)
  have 4: "hd ?o \<notin> set white_space" using normal_hd [OF n] by (simp add: ws_def)
  have 5: "last ?o \<notin> set white_space" using la by (simp add: white_space_def)
  have 6: "\<exists>u. ?o = u @ ''.'' \<and> (u = [] \<or> last u \<noteq> CHR ''.'')"
  proof -
    have o: "?o = butlast ?o @ ''.''" using ne la by (metis append_butlast_last_id)
    have "last (butlast ?o) \<noteq> CHR ''.''" if "butlast ?o \<noteq> []"
    proof
      assume "last (butlast ?o) = CHR ''.''"
      then have "butlast ?o = butlast (butlast ?o) @ ''.''"
        using that by (metis append_butlast_last_id)
      then have "?o = butlast (butlast ?o) @ ''..'' @ []" using o by (metis append.assoc append_Cons append_Nil)
      then have "sublist ''..'' ?o" unfolding sublist_def by blast
      then show False using 1 by simp
    qed
    then show ?thesis using o by blast
  qed
  have 7: "\<forall>c \<in> set ?o. c \<notin> set upper_letters"
    using lo lower_char_fixed_not_upper by blast
  have 8: "toLowerCase ?o = ?o" unfolding toLowerCase_def using lo by (intro map_idI) simp
  show ?thesis using 1 2 3 4 5 6 7 8 ne by blast
qed

theorem clean_text_normalized_witness:
  "clean_text '' Mr. Smith ,said:  NO !? '' = ''mr. smith said no.'' \<and>
   \<not> sublist ''..'' ''mr. smith said no.'' \<and>
   \<not> sublist '' .'' ''mr. smith said no.'' \<and>
   hd ''mr. smith said no.'' \<notin> set white_space \<and>
   last ''mr. smith said no.'' \<notin> set white_space \<and>
   \<not> sublist ''  '' ''mr. smith said no.'' \<and>
   set ''mr. smith said no.'' \<inter> set upper_letters = {} \<and>
   toLowerCase ''mr. smith said no.'' = ''mr. smith said no.''"
  using clean_text_normalized [of "'' Mr. Smith ,said:  NO !? ''"]
  unfolding clean_text_mixed by blast

section \<open>Words, sentences and the scores\<close>

lemma counts_sample:
  "sentence_count ''this is a test delicious. i hope this works.'' = Inr 2"
  "word_count ''this is a test delicious. i hope this works.'' = 9"
  by code_simp+

lemma counts_sample_raw:
  "sentence_count ''<p>this is a test delicious</p><br />I hope THIS works!'' = Inr 2"
  "word_count ''<p>this is a test delicious</p><br />I hope THIS works!'' = 9"
  by code_simp+

lemma average_words_sample:
  "average_words_per_sentence ''<p>this is a test delicious</p><br />I hope THIS works!'' =
   Inr (Fin (9 / 2))"
  by (simp add: average_words_per_sentence_def bind_error_def clean_text_sample counts_sample
      num_def)

text \<open>
  C10: for every input string the word count is at least the sentence count, and the
  average number of words per sentence is at least 1.
\<close>

theorem word_count_ge_sentence_count:
  "(\<exists>n. sentence_count t = Inr n \<and> n \<le> word_count t) \<and>
   (\<exists>x. average_words_per_sentence t = Inr (Fin x) \<and> 1 \<le> x)"
  using sentences_le_words [of t] average_words_per_sentence_value [of t] by blast

theorem word_count_ge_sentence_count_witness:
  "sentence_count ''<p>this is a test delicious</p><br />I hope THIS works!'' = Inr 2 \<and>
   (2 :: nat) \<le> word_count ''<p>this is a test delicious</p><br />I hope THIS works!'' \<and>
   average_words_per_sentence ''<p>this is a test delicious</p><br />I hope THIS works!'' =
     Inr (Fin (9 / 2)) \<and>
   (1 :: real) \<le> 9 / 2"
  using word_count_ge_sentence_count [of "''<p>this is a test delicious</p><br />I hope THIS works!''"]
    counts_sample_raw average_words_sample by simp

lemma counts_empty: "sentence_count [] = Inr 1" "word_count [] = 1"
  by code_simp+

text \<open>
  C7: no operation raises, on any input string, the empty string and the strings of
  white space included: \<open>sentence_count\<close> and \<open>word_count\<close> are at least 1, so no
  score divides by zero, and every operation that could raise returns a value. (The other
  operations, \<open>clean_text\<close>, \<open>text_length\<close>, \<open>letter_count\<close>, \<open>word_count\<close>,
  \<open>syllable_count\<close>, \<open>average_syllables_per_word\<close> and the two counts of long words,
  contain nothing that raises.)
\<close>

theorem operations_total:
  "(\<exists>n. sentence_count t = Inr n \<and> 1 \<le> n) \<and>
   1 \<le> word_count t \<and>
   (\<exists>x. average_words_per_sentence t = Inr (Fin x)) \<and>
   returns (flesch_kincaid_reading_ease t) \<and>
   returns (flesch_kincaid_grade_level t) \<and>
   (\<exists>x. gunning_fog_score t = Inr (Fin x)) \<and>
   (\<exists>x. coleman_liau_index t = Inr (Fin x)) \<and>
   (\<exists>x. smog_index t = Inr (Fin x)) \<and>
   (\<exists>x. automated_readability_index t = Inr (Fin x)) \<and>
   returns (average_grade_level t) \<and>
   returns (all_statistics t)"
proof -
  obtain n where n: "sentence_count t = Inr n" "1 \<le> n"
    using sentences_le_words [of t] by blast
  obtain w where w: "average_words_per_sentence t = Inr (Fin w)"
    using average_words_per_sentence_value [of t] by blast
  obtain re where re: "flesch_kincaid_reading_ease t = Inr re"
    using flesch_kincaid_reading_ease_returns by blast
  obtain a b c d e where s: "flesch_kincaid_grade_level t = Inr a" "gunning_fog_score t = Inr b"
    "coleman_liau_index t = Inr c" "smog_index t = Inr d" "automated_readability_index t = Inr e"
    "average_grade_level t = Inr (over (a + b + c + d + e) 5)"
    using average_grade_level_value [of t] by blast
  have "returns (all_statistics t)"
    by (simp add: all_statistics_def bind_error_def returns_def n w re s)
  then show ?thesis
    using n w re s word_count_positive [of t] gunning_fog_score_returns [of t]
      coleman_liau_index_returns [of t] smog_index_returns [of t]
      automated_readability_index_returns [of t]
    by (simp add: returns_def)
qed

theorem operations_total_witness:
  "sentence_count [] = Inr 1 \<and> word_count [] = 1 \<and>
   returns (average_grade_level []) \<and> returns (all_statistics [])"
  using operations_total [of "[]"] counts_empty by simp

text \<open>
  C8: the average grade level is the arithmetic mean of the Flesch-Kincaid grade
  level, the Gunning-Fog score, the Coleman-Liau index, the SMOG index and the automated
  readability index of the same text; the reading ease is not part of it.
\<close>

theorem average_grade_level_is_mean:
  "\<exists>a b c d e. flesch_kincaid_grade_level t = Inr a \<and> gunning_fog_score t = Inr b \<and>
     coleman_liau_index t = Inr c \<and> smog_index t = Inr d \<and>
     automated_readability_index t = Inr e \<and>
     average_grade_level t = Inr (mean [a, b, c, d, e])"
proof -
  have "mean [a, b, c, d, e] = over (a + b + c + d + e) 5" for a b c d e
    by (simp add: mean_def eval_nat_numeral)
  then show ?thesis using average_grade_level_value [of t] by simp
qed

end
